theory Spec2Isabelle
  imports
    Complex_Main
    "HOL-Library.AList"
    "HOL-Library.Char_ord"
    "HOL-Library.List_Lexorder"
    "HOL-Library.Product_Lexorder"
begin

section \<open>Data model\<close>

text \<open>
  The records follow the dataclasses of \<^verbatim>\<open>scraper.py\<close> and \<^verbatim>\<open>example_usage.py\<close>.
  Python floats are modelled as exact reals: the theorems below are about the formulas the
  code evaluates, not about rounding. Python strings are modelled as \<^typ>\<open>string\<close>, one
  \<^typ>\<open>char\<close> per code point below 256. An \<^verbatim>\<open>Optional[str]\<close> is a \<^typ>\<open>string option\<close>.
\<close>

record SchoolData =
  text_content :: "string option"
  href :: "string option"
  title :: "string option"
  ct_code :: "string option"
  success :: bool
  error_message :: "string option"

record ScraperConfig =
  max_concurrent_requests :: int
  batch_delay_min :: real
  batch_delay_max :: real
  retry_max_attempts :: int
  retry_base_delay :: real
  retry_max_delay :: real
  request_jitter_min :: real
  request_jitter_max :: real
  output_file :: string
  progress_file :: string
  failed_codes_file :: string

text \<open>The field \<^verbatim>\<open>timestamp\<close> of \<^verbatim>\<open>ScrapeResult\<close> is never read and is left out.\<close>

record ScrapeResult =
  school_data :: "SchoolData option"
  result_ct_code :: string
  attempts :: int
  last_error :: "string option"

definition ScraperConfig_default :: ScraperConfig where
  "ScraperConfig_default =
     \<lparr> max_concurrent_requests = 3,
       batch_delay_min = 1,
       batch_delay_max = 2,
       retry_max_attempts = 3,
       retry_base_delay = 1,
       retry_max_delay = 60,
       request_jitter_min = 1 / 10,
       request_jitter_max = 5 / 10,
       output_file = ''ct_codes_coords_googlelinks_federal_primaria.txt'',
       progress_file = ''scraper_progress_federal_primaria.txt'',
       failed_codes_file = ''failed_ct_codes_federal_primaria.txt'' \<rparr>"

section \<open>The retry wrapper\<close>

text \<open>
  \<^verbatim>\<open>random.uniform(a, b)\<close> is \<^verbatim>\<open>a + (b - a) * random()\<close>; the draw \<open>u\<close> of
  \<^verbatim>\<open>random()\<close> is an input of the model. One call of the wrapper draws at most once
  before the request of an attempt and at most once after it, so the draws are given as
  two functions of the attempt number: \<open>jd\<close> for the sleep before the request and
  \<open>bd\<close> for the backoff.
\<close>

definition uniform :: "real \<Rightarrow> real \<Rightarrow> real \<Rightarrow> real" where
  "uniform a b u = a + (b - a) * u"

text \<open>
  What one call of \<^verbatim>\<open>scraper.scrape_school_data\<close> does, seen from the wrapper: it returns
  a record, raises \<^verbatim>\<open>asyncio.TimeoutError\<close>, or raises another \<^verbatim>\<open>Exception\<close>
  (the string is \<^verbatim>\<open>str(e)\<close>). The function \<open>scrape\<close> gives the outcome of
  the call made at each attempt.
\<close>

datatype attempt_outcome =
    Returned SchoolData
  | RaisedTimeout string
  | RaisedException string

text \<open>
  The effects of the wrapper, in order: the sleep before a request, the request, and the
  backoff sleep, each with the value of the loop variable \<^verbatim>\<open>attempt\<close> at that point.
\<close>

datatype retry_event =
    RequestJitter int real
  | Request int string
  | Backoff int real

record retry_state =
  result :: ScrapeResult
  trace :: "retry_event list"

definition backoff_delay :: "ScraperConfig \<Rightarrow> int \<Rightarrow> real" where
  "backoff_delay cfg attempt =
     min (retry_base_delay cfg * 2 ^ nat (attempt - 1)) (retry_max_delay cfg)"

text \<open>Lines 107 to 115: the tail of the loop body after a failed attempt.\<close>

definition backoff_step :: "ScraperConfig \<Rightarrow> (int \<Rightarrow> real) \<Rightarrow> int \<Rightarrow> retry_state \<Rightarrow> retry_state" where
  "backoff_step cfg bd attempt st =
     (if attempt < retry_max_attempts cfg then
        (let delay = backoff_delay cfg attempt;
             delay' = delay + uniform 0 (delay * (1 / 10)) (bd attempt)
         in st\<lparr> trace := trace st @ [Backoff attempt delay'] \<rparr>)
      else st)"

definition set_last_error :: "string option \<Rightarrow> retry_state \<Rightarrow> retry_state" where
  "set_last_error e st = st\<lparr> result := (result st)\<lparr> last_error := e \<rparr> \<rparr>"

text \<open>
  The \<^verbatim>\<open>for attempt in range(1, retry_max_attempts + 1)\<close> loop, over the list of the
  values of the range. A successful attempt returns at once; the empty list is the
  \<^verbatim>\<open>return result\<close> after the loop.
\<close>

fun retry_loop ::
  "ScraperConfig \<Rightarrow> (int \<Rightarrow> attempt_outcome) \<Rightarrow> (int \<Rightarrow> real) \<Rightarrow> (int \<Rightarrow> real) \<Rightarrow> string \<Rightarrow>
   int list \<Rightarrow> retry_state \<Rightarrow> retry_state" where
  "retry_loop cfg scrape jd bd code [] st = st"
| "retry_loop cfg scrape jd bd code (attempt # rest) st =
     (let st1 = st\<lparr> result := (result st)\<lparr> attempts := attempt \<rparr> \<rparr>;
          jitter = uniform (request_jitter_min cfg) (request_jitter_max cfg) (jd attempt);
          st2 = st1\<lparr> trace := trace st1 @ [RequestJitter attempt jitter, Request attempt code] \<rparr>
      in case scrape attempt of
           Returned sd \<Rightarrow>
             if success sd then st2\<lparr> result := (result st2)\<lparr> school_data := Some sd \<rparr> \<rparr>
             else retry_loop cfg scrape jd bd code rest
                    (backoff_step cfg bd attempt (set_last_error (error_message sd) st2))
         | RaisedTimeout e \<Rightarrow>
             retry_loop cfg scrape jd bd code rest
               (backoff_step cfg bd attempt (set_last_error (Some (''Timeout: '' @ e)) st2))
         | RaisedException e \<Rightarrow>
             retry_loop cfg scrape jd bd code rest
               (backoff_step cfg bd attempt (set_last_error (Some e) st2)))"

definition scrape_with_retry ::
  "ScraperConfig \<Rightarrow> (int \<Rightarrow> attempt_outcome) \<Rightarrow> (int \<Rightarrow> real) \<Rightarrow> (int \<Rightarrow> real) \<Rightarrow> string \<Rightarrow>
   retry_state" where
  "scrape_with_retry cfg scrape jd bd code =
     retry_loop cfg scrape jd bd code [1 .. retry_max_attempts cfg]
       \<lparr> result = \<lparr> school_data = None, result_ct_code = code, attempts = 0, last_error = None \<rparr>,
         trace = [] \<rparr>"

text \<open>An attempt succeeds when the call returns a record whose flag is set.\<close>

definition succeeded :: "attempt_outcome \<Rightarrow> bool" where
  "succeeded out = (case out of Returned sd \<Rightarrow> success sd | _ \<Rightarrow> False)"

text \<open>The error the wrapper stores in \<^verbatim>\<open>last_error\<close> after a failed attempt.\<close>

definition recorded_error :: "attempt_outcome \<Rightarrow> string option" where
  "recorded_error out =
     (case out of
        Returned sd \<Rightarrow> error_message sd
      | RaisedTimeout e \<Rightarrow> Some (''Timeout: '' @ e)
      | RaisedException e \<Rightarrow> Some e)"

text \<open>Names used in the proofs: the attempts the loop makes are the failed ones up to and
  including the first success, and each contributes a fixed group of events.\<close>

definition attempts_made :: "(int \<Rightarrow> attempt_outcome) \<Rightarrow> int list \<Rightarrow> int list" where
  "attempts_made scrape as =
     takeWhile (\<lambda>a. \<not> succeeded (scrape a)) as @
     take 1 (dropWhile (\<lambda>a. \<not> succeeded (scrape a)) as)"

definition attempt_events ::
  "ScraperConfig \<Rightarrow> (int \<Rightarrow> attempt_outcome) \<Rightarrow> (int \<Rightarrow> real) \<Rightarrow> (int \<Rightarrow> real) \<Rightarrow> string \<Rightarrow>
   int \<Rightarrow> retry_event list" where
  "attempt_events cfg scrape jd bd code a =
     [RequestJitter a (uniform (request_jitter_min cfg) (request_jitter_max cfg) (jd a)),
      Request a code] @
     (if \<not> succeeded (scrape a) \<and> a < retry_max_attempts cfg
      then [Backoff a (backoff_delay cfg a + uniform 0 (backoff_delay cfg a * (1 / 10)) (bd a))]
      else [])"

definition begin_attempt ::
  "ScraperConfig \<Rightarrow> (int \<Rightarrow> real) \<Rightarrow> string \<Rightarrow> int \<Rightarrow> retry_state \<Rightarrow> retry_state" where
  "begin_attempt cfg jd code a st =
     st\<lparr> result := (result st)\<lparr> attempts := a \<rparr>,
         trace := trace st @
           [RequestJitter a (uniform (request_jitter_min cfg) (request_jitter_max cfg) (jd a)),
            Request a code] \<rparr>"

section \<open>Strings, lines and files\<close>

text \<open>
  \<^verbatim>\<open>str.isspace\<close> on the code points below 256: tab, line feed, vertical tab, form feed,
  carriage return, the four separators 28 to 31, space, NEL (133) and the no-break space (160).
\<close>

definition is_space :: "char \<Rightarrow> bool" where
  "is_space c = (of_char c \<in> {9, 10, 11, 12, 13, 28, 29, 30, 31, 32, 133, 160 :: nat})"

definition strip :: "string \<Rightarrow> string" where
  "strip s = rev (dropWhile is_space (rev (dropWhile is_space s)))"

text \<open>\<^verbatim>\<open>s.split(c)\<close> for a one-character separator: never empty.\<close>

fun split_on :: "char \<Rightarrow> string \<Rightarrow> string list" where
  "split_on c [] = [[]]"
| "split_on c (x # xs) =
     (if x = c then [] # split_on c xs
      else (case split_on c xs of p # ps \<Rightarrow> (x # p) # ps | [] \<Rightarrow> [[x]]))"

text \<open>\<^verbatim>\<open>s.split(c, 1)\<close>: at most one split, at the first separator.\<close>

definition split_once :: "char \<Rightarrow> string \<Rightarrow> string list" where
  "split_once c s =
     (if c \<in> set s then [takeWhile (\<lambda>x. x \<noteq> c) s, drop 1 (dropWhile (\<lambda>x. x \<noteq> c) s)] else [s])"

text \<open>
  A text file opened for reading translates \<^verbatim>\<open>\r\n\<close> and \<^verbatim>\<open>\r\<close> to \<^verbatim>\<open>\n\<close>; iterating
  over it gives the lines with their terminator, the last one possibly without.
\<close>

fun universal_newlines :: "string \<Rightarrow> string" where
  "universal_newlines [] = []"
| "universal_newlines [c] = (if c = CHR 0x0D then [CHR 0x0A] else [c])"
| "universal_newlines (c # d # s) =
     (if c = CHR 0x0D \<and> d = CHR 0x0A then CHR 0x0A # universal_newlines s
      else if c = CHR 0x0D then CHR 0x0A # universal_newlines (d # s)
      else c # universal_newlines (d # s))"

fun lines_from :: "string \<Rightarrow> string \<Rightarrow> string list" where
  "lines_from cur [] = (if cur = [] then [] else [cur])"
| "lines_from cur (c # s) =
     (if c = CHR 0x0A then (cur @ [c]) # lines_from [] s else lines_from (cur @ [c]) s)"

definition readlines :: "string \<Rightarrow> string list" where
  "readlines content = lines_from [] (universal_newlines content)"

text \<open>
  The file system is a map from paths to contents. Opening a file for appending creates it
  when it is missing; the model is of a platform that writes \<^verbatim>\<open>\n\<close> as it is.
\<close>

type_synonym filesystem = "string \<rightharpoonup> string"

definition append_file :: "string \<Rightarrow> string \<Rightarrow> filesystem \<Rightarrow> filesystem" where
  "append_file path s files =
     files(path \<mapsto> (case files path of None \<Rightarrow> [] | Some old \<Rightarrow> old) @ s)"

definition write_file :: "string \<Rightarrow> string \<Rightarrow> filesystem \<Rightarrow> filesystem" where
  "write_file path s files = files(path \<mapsto> s)"

text \<open>\<^verbatim>\<open>x or d\<close> on an optional string: \<^verbatim>\<open>None\<close> and the empty string are false.\<close>

definition or_else :: "string option \<Rightarrow> string \<Rightarrow> string" where
  "or_else x d = (case x of None \<Rightarrow> d | Some s \<Rightarrow> if s = [] then d else s)"

text \<open>An optional string inside an f-string: \<^verbatim>\<open>None\<close> prints as its name.\<close>

definition format_opt :: "string option \<Rightarrow> string" where
  "format_opt x = (case x of None \<Rightarrow> ''None'' | Some s \<Rightarrow> s)"

section \<open>Regular expressions\<close>

text \<open>
  The two patterns of the repository use literals, an optional literal, and \<^verbatim>\<open>+\<close> and
  \<^verbatim>\<open>*\<close> on a character class. A pattern is the list of its items; the matcher is the
  backtracking one of \<^verbatim>\<open>re\<close>: an optional item is tried present first, a repetition
  longest first. It returns the text matched by each item and the rest of the input.
  On code points below 256, \<^verbatim>\<open>\d\<close> is the ten ASCII digits.
\<close>

datatype char_class = Digit | NotChar char

datatype rx_item = Lit char | Opt char | Many1 char_class | Many0 char_class

definition is_digit :: "char \<Rightarrow> bool" where
  "is_digit c = (48 \<le> (of_char c :: nat) \<and> (of_char c :: nat) \<le> 57)"

fun in_class :: "char_class \<Rightarrow> char \<Rightarrow> bool" where
  "in_class Digit c = is_digit c"
| "in_class (NotChar x) c = (c \<noteq> x)"

fun first_some :: "('a \<Rightarrow> 'b option) \<Rightarrow> 'a list \<Rightarrow> 'b option" where
  "first_some f [] = None"
| "first_some f (k # ks) = (case f k of Some r \<Rightarrow> Some r | None \<Rightarrow> first_some f ks)"

definition run_length :: "char_class \<Rightarrow> string \<Rightarrow> nat" where
  "run_length cls s = length (takeWhile (in_class cls) s)"

fun rx_match :: "rx_item list \<Rightarrow> string \<Rightarrow> (string list \<times> string) option" where
  "rx_match [] s = Some ([], s)"
| "rx_match (Lit c # items) s =
     (case s of
        [] \<Rightarrow> None
      | x # xs \<Rightarrow>
          if x = c then map_option (\<lambda>(ps, r). ([c] # ps, r)) (rx_match items xs) else None)"
| "rx_match (Opt c # items) s =
     (case (case s of
              [] \<Rightarrow> None
            | x # xs \<Rightarrow>
                if x = c then map_option (\<lambda>(ps, r). ([c] # ps, r)) (rx_match items xs) else None) of
        Some m \<Rightarrow> Some m
      | None \<Rightarrow> map_option (\<lambda>(ps, r). ([] # ps, r)) (rx_match items s))"
| "rx_match (Many1 cls # items) s =
     first_some (\<lambda>k. map_option (\<lambda>(ps, r). (take k s # ps, r)) (rx_match items (drop k s)))
       (rev [1 ..< Suc (run_length cls s)])"
| "rx_match (Many0 cls # items) s =
     first_some (\<lambda>k. map_option (\<lambda>(ps, r). (take k s # ps, r)) (rx_match items (drop k s)))
       (rev [0 ..< Suc (run_length cls s)])"

text \<open>\<^verbatim>\<open>re.match\<close> anchors at the start; \<^verbatim>\<open>re.search\<close> takes the leftmost start that matches.\<close>

definition re_match :: "rx_item list \<Rightarrow> string \<Rightarrow> string list option" where
  "re_match items s = map_option fst (rx_match items s)"

fun re_search :: "rx_item list \<Rightarrow> string \<Rightarrow> string list option" where
  "re_search items [] = map_option fst (rx_match items [])"
| "re_search items (c # s) =
     (case rx_match items (c # s) of
        Some (ps, r) \<Rightarrow> Some ps
      | None \<Rightarrow> re_search items s)"

text \<open>The text of a group made of the items \<open>i, \<dots>, i + n - 1\<close>.\<close>

definition group_text :: "nat \<Rightarrow> nat \<Rightarrow> string list \<Rightarrow> string" where
  "group_text i n ps = concat (take n (drop i ps))"

text \<open>\<^verbatim>\<open>place/(-?\d+\.\d+),(-?\d+\.\d+)\<close>, of \<^verbatim>\<open>save_result_incrementally\<close>.\<close>

definition pointed_number :: "rx_item list" where
  "pointed_number = [Opt CHR ''-'', Many1 Digit, Lit CHR ''.'', Many1 Digit]"

definition place_pattern :: "rx_item list" where
  "place_pattern = map Lit ''place/'' @ pointed_number @ [Lit CHR '',''] @ pointed_number"

text \<open>\<^verbatim>\<open>([^-]+)-(-?\d+\.?\d*),(-?\d+\.?\d*)\<close>, of \<^verbatim>\<open>load_coordinates_data\<close>.\<close>

definition loose_number :: "rx_item list" where
  "loose_number = [Opt CHR ''-'', Many1 Digit, Opt CHR ''.'', Many0 Digit]"

definition line_pattern :: "rx_item list" where
  "line_pattern =
     [Many1 (NotChar CHR ''-''), Lit CHR ''-''] @ loose_number @ [Lit CHR '',''] @ loose_number"

section \<open>Persistence\<close>

text \<open>
  \<^verbatim>\<open>load_progress\<close>: the set of the codes of the progress file, one per line that is not
  blank, each the text before the first \<^verbatim>\<open>-\<close>, stripped.
\<close>

definition progress_code :: "string \<Rightarrow> string option" where
  "progress_code line =
     (if strip line \<noteq> [] then
        Some (strip (case split_on CHR ''-'' line of p # _ \<Rightarrow> p | [] \<Rightarrow> []))
      else None)"

definition load_progress :: "string \<Rightarrow> filesystem \<Rightarrow> string set" where
  "load_progress progress_path files =
     (case files progress_path of
        None \<Rightarrow> {}
      | Some content \<Rightarrow>
          fold (\<lambda>line processed.
                  case progress_code line of None \<Rightarrow> processed | Some c \<Rightarrow> insert c processed)
            (readlines content) {})"

text \<open>
  \<^verbatim>\<open>save_result_incrementally\<close>: groups 1 and 2 of the match are items 6 to 9 and 11 to 14
  of \<open>place_pattern\<close>. A dataclass instance is always true, so \<^verbatim>\<open>result.school_data\<close>
  is false only when it is \<^verbatim>\<open>None\<close>; an empty link is false.
\<close>

definition save_result_incrementally ::
  "ScrapeResult \<Rightarrow> ScraperConfig \<Rightarrow> filesystem \<Rightarrow> filesystem \<times> bool" where
  "save_result_incrementally res config files =
     (case school_data res of
        None \<Rightarrow> (files, False)
      | Some sd \<Rightarrow>
          (case href sd of
             None \<Rightarrow> (files, False)
           | Some link \<Rightarrow>
               if success sd \<and> link \<noteq> [] then
                 (case re_search place_pattern link of
                    None \<Rightarrow> (files, False)
                  | Some ps \<Rightarrow>
                      (let lat = group_text 6 4 ps;
                           lng = group_text 11 4 ps;
                           coords = lat @ '','' @ lng;
                           line = format_opt (ct_code sd) @ ''-'' @ coords @ ''-'' @ link
                       in (append_file (progress_file config) (line @ [CHR 0x0A])
                             (append_file (output_file config) (line @ [CHR 0x0A]) files),
                           True)))
               else (files, False)))"

text \<open>\<^verbatim>\<open>save_failed_code\<close>; \<open>now\<close> is \<^verbatim>\<open>datetime.now().isoformat()\<close>.\<close>

definition save_failed_code ::
  "string \<Rightarrow> string \<Rightarrow> string \<Rightarrow> ScraperConfig \<Rightarrow> filesystem \<Rightarrow> filesystem" where
  "save_failed_code code err now config files =
     append_file (failed_codes_file config) (code @ ''|'' @ err @ ''|'' @ now @ [CHR 0x0A]) files"

section \<open>Merging result files\<close>

text \<open>
  \<^verbatim>\<open>merge_results\<close>: the dictionary is an association list in insertion order, and
  \<^verbatim>\<open>all_results[ct_code] = rest\<close> is \<open>AList.update\<close>. The items are written sorted, as
  pairs of strings compared code point by code point.
\<close>

definition merge_entry :: "string \<Rightarrow> (string \<times> string) option" where
  "merge_entry line =
     (if strip line \<noteq> [] then
        (case split_once CHR ''-'' line of
           a # b # _ \<Rightarrow> Some (strip a, strip b)
         | _ \<Rightarrow> None)
      else None)"

definition merge_line :: "string \<Rightarrow> (string \<times> string) list \<Rightarrow> (string \<times> string) list" where
  "merge_line line all_results =
     (case merge_entry line of
        None \<Rightarrow> all_results
      | Some (code, rest) \<Rightarrow> AList.update code rest all_results)"

definition merge_file ::
  "filesystem \<Rightarrow> string \<Rightarrow> (string \<times> string) list \<Rightarrow> (string \<times> string) list" where
  "merge_file files path all_results =
     (case files path of
        None \<Rightarrow> all_results
      | Some content \<Rightarrow> fold merge_line (readlines content) all_results)"

definition merged_line :: "string \<times> string \<Rightarrow> string" where
  "merged_line item = fst item @ ''-'' @ snd item @ [CHR 0x0A]"

definition merge_results :: "string list \<Rightarrow> string \<Rightarrow> filesystem \<Rightarrow> filesystem \<times> nat" where
  "merge_results result_files output_path files =
     (let all_results = fold (merge_file files) result_files []
      in (write_file output_path (concat (map merged_line (sort all_results))) files,
          length all_results))"

text \<open>The entries of the input files, in file order and then line order.\<close>

definition merge_entries :: "string list \<Rightarrow> filesystem \<Rightarrow> (string \<times> string) list" where
  "merge_entries result_files files =
     concat (map (\<lambda>path. case files path of
                            None \<Rightarrow> []
                          | Some content \<Rightarrow> List.map_filter merge_entry (readlines content))
               result_files)"

section \<open>The dashboard's loader\<close>

record coordinate_row =
  school_code :: string
  latitude :: real
  longitude :: real

text \<open>
  \<^verbatim>\<open>float\<close> on the text of a group of \<open>line_pattern\<close>: sign, digits, and after an
  optional point more digits. The value is exact here.
\<close>

definition digits_value :: "string \<Rightarrow> nat" where
  "digits_value ds = foldl (\<lambda>v c. 10 * v + (of_char c - 48)) 0 ds"

definition decimal_value :: "string \<Rightarrow> real" where
  "decimal_value s =
     (let negative = (take 1 s = ''-'');
          u = (if negative then drop 1 s else s);
          whole = takeWhile is_digit u;
          frac = drop 1 (dropWhile is_digit u);
          v = real (digits_value whole) + real (digits_value frac) / 10 ^ length frac
      in if negative then - v else v)"

text \<open>The body of the loop, on a stripped line: groups 1, 2 and 3 are item 0, items 2 to 5
  and items 7 to 10.\<close>

definition parse_coordinate_line :: "string \<Rightarrow> coordinate_row option" where
  "parse_coordinate_line line =
     (case re_match line_pattern line of
        None \<Rightarrow> None
      | Some ps \<Rightarrow>
          Some \<lparr> school_code = group_text 0 1 ps,
                 latitude = decimal_value (group_text 2 4 ps),
                 longitude = decimal_value (group_text 7 4 ps) \<rparr>)"

text \<open>\<^verbatim>\<open>drop_duplicates(subset=['school_code'], keep='first')\<close>.\<close>

fun drop_duplicates :: "string list \<Rightarrow> coordinate_row list \<Rightarrow> coordinate_row list" where
  "drop_duplicates seen [] = []"
| "drop_duplicates seen (r # rs) =
     (if school_code r \<in> set seen then drop_duplicates seen rs
      else r # drop_duplicates (school_code r # seen) rs)"

text \<open>
  \<^verbatim>\<open>load_coordinates_data\<close>. A missing file raises, and so does \<^verbatim>\<open>drop_duplicates\<close>
  on a frame without rows (it has no column \<^verbatim>\<open>school_code\<close>); both end in the handler
  that returns an empty frame.
\<close>

definition load_coordinates_data :: "filesystem \<Rightarrow> coordinate_row list" where
  "load_coordinates_data files =
     (case files ''ct_codes_coords_googlelinks_federal_primaria.txt'' of
        None \<Rightarrow> []
      | Some content \<Rightarrow>
          drop_duplicates []
            (List.map_filter parse_coordinate_line
               (filter (\<lambda>line. line \<noteq> []) (map strip (readlines content)))))"

section \<open>The batch job\<close>

text \<open>
  \<^verbatim>\<open>asyncio.gather(*tasks, return_exceptions=True)\<close> gives, for every code of the batch
  and in the order of the batch, the value its task returned or the exception it raised;
  \<open>run_task\<close> is that outcome as a function of the code.
\<close>

datatype task_result = TaskException string | TaskResult ScrapeResult

datatype job_event = Submit "string list" | BatchPause real

datatype job_message =
    LogException string
  | PrintSaved string
  | PrintFailed string "string option"

record job_state =
  disk :: filesystem
  successful_count :: nat
  failed_count :: nat
  total_processed :: nat
  job_trace :: "job_event list"
  messages :: "job_message list"

text \<open>The loop over \<^verbatim>\<open>batch_results\<close>; \<open>clock n\<close> is the time read while item \<open>n\<close>
  is handled.\<close>

fun process_results ::
  "ScraperConfig \<Rightarrow> (nat \<Rightarrow> string) \<Rightarrow> task_result list \<Rightarrow> job_state \<Rightarrow> job_state" where
  "process_results config clock [] st = st"
| "process_results config clock (r # rs) st =
     (let st1 = st\<lparr> total_processed := total_processed st + 1 \<rparr>
      in case r of
           TaskException e \<Rightarrow>
             process_results config clock rs
               (st1\<lparr> failed_count := failed_count st1 + 1,
                     messages := messages st1 @ [LogException e] \<rparr>)
         | TaskResult res \<Rightarrow>
             (case save_result_incrementally res config (disk st1) of
                (files', True) \<Rightarrow>
                  process_results config clock rs
                    (st1\<lparr> disk := files',
                          successful_count := successful_count st1 + 1,
                          messages := messages st1 @ [PrintSaved (result_ct_code res)] \<rparr>)
              | (files', False) \<Rightarrow>
                  process_results config clock rs
                    (st1\<lparr> disk :=
                            save_failed_code (result_ct_code res)
                              (or_else (last_error res) ''Unknown error'')
                              (clock (total_processed st1)) config files',
                          failed_count := failed_count st1 + 1,
                          messages := messages st1 @
                            [PrintFailed (result_ct_code res) (last_error res)] \<rparr>)))"

text \<open>\<^verbatim>\<open>range(0, stop, step)\<close> and onwards, for a positive step.\<close>

function range_step :: "int \<Rightarrow> int \<Rightarrow> int \<Rightarrow> int list" where
  "range_step i stop step =
     (if 0 < step \<and> i < stop then i # range_step (i + step) stop step else [])"
  by pat_completeness auto
termination
  by (relation "measure (\<lambda>(i, stop, step). nat (stop - i))") auto

definition batches_of :: "int \<Rightarrow> string list \<Rightarrow> string list list" where
  "batches_of batch_size ct_codes =
     map (\<lambda>i. take (nat batch_size) (drop (nat i) ct_codes))
       (range_step 0 (int (length ct_codes)) batch_size)"

text \<open>The loop over the batches, numbered from 1.\<close>

fun process_batches ::
  "ScraperConfig \<Rightarrow> (string \<Rightarrow> task_result) \<Rightarrow> (nat \<Rightarrow> real) \<Rightarrow> (nat \<Rightarrow> string) \<Rightarrow> int \<Rightarrow>
   (nat \<times> string list) list \<Rightarrow> job_state \<Rightarrow> job_state" where
  "process_batches config run_task pause_draw clock total_batches [] st = st"
| "process_batches config run_task pause_draw clock total_batches ((batch_num, batch) # rest) st =
     (let st1 = st\<lparr> job_trace := job_trace st @ [Submit batch] \<rparr>;
          st2 = process_results config clock (map run_task batch) st1;
          st3 = (if int batch_num < total_batches then
                   st2\<lparr> job_trace := job_trace st2 @
                          [BatchPause (uniform (batch_delay_min config) (batch_delay_max config)
                                         (pause_draw batch_num))] \<rparr>
                 else st2)
      in process_batches config run_task pause_draw clock total_batches rest st3)"

datatype job_end =
    InputFileNotFound
  | NoCodesFound
  | AllAlreadyProcessed
  | UnexpectedError
  | Finished

text \<open>
  \<^verbatim>\<open>read_ct_codes_from_file\<close> with its configuration as a parameter. A negative
  \<^verbatim>\<open>max_concurrent_requests\<close> makes the semaphore raise and zero makes the division for
  \<^verbatim>\<open>total_batches\<close> raise; both reach the handler for unexpected errors.
\<close>

definition pending_codes :: "string \<Rightarrow> string \<Rightarrow> filesystem \<Rightarrow> string list" where
  "pending_codes content progress_path files =
     (let all_ct_codes = filter (\<lambda>line. line \<noteq> []) (map strip (readlines content));
          processed_codes = load_progress progress_path files
      in filter (\<lambda>code. code \<notin> processed_codes) all_ct_codes)"

definition run_job ::
  "ScraperConfig \<Rightarrow> (string \<Rightarrow> task_result) \<Rightarrow> (nat \<Rightarrow> real) \<Rightarrow> (nat \<Rightarrow> string) \<Rightarrow>
   filesystem \<Rightarrow> job_end \<times> job_state" where
  "run_job config run_task pause_draw clock files0 =
     (let st0 = \<lparr> disk = files0, successful_count = 0, failed_count = 0, total_processed = 0,
                  job_trace = [], messages = [] \<rparr>
      in case files0 ''clave_ct_list_federal_primaria.txt'' of
           None \<Rightarrow> (InputFileNotFound, st0)
         | Some content \<Rightarrow>
             if filter (\<lambda>line. line \<noteq> []) (map strip (readlines content)) = [] then
               (NoCodesFound, st0)
             else
               (let ct_codes = pending_codes content (progress_file config) files0;
                    batch_size = max_concurrent_requests config
                in if ct_codes = [] then (AllAlreadyProcessed, st0)
                   else if batch_size \<le> 0 then (UnexpectedError, st0)
                   else
                     (let total_batches = (int (length ct_codes) + batch_size - 1) div batch_size
                      in (Finished,
                          process_batches config run_task pause_draw clock total_batches
                            (enumerate 1 (batches_of batch_size ct_codes)) st0))))"

definition read_ct_codes_from_file ::
  "(string \<Rightarrow> task_result) \<Rightarrow> (nat \<Rightarrow> real) \<Rightarrow> (nat \<Rightarrow> string) \<Rightarrow> filesystem \<Rightarrow>
   job_end \<times> job_state" where
  "read_ct_codes_from_file = run_job ScraperConfig_default"

text \<open>
  The task the job creates for a code of a batch (lines 226 to 230) is
  \<^verbatim>\<open>rate_limiter.scrape_with_retry(scraper, ct_code)\<close>, under the job's own configuration.
  The whole of an attempt sits inside the \<^verbatim>\<open>try\<close> of that function, which catches
  \<^verbatim>\<open>asyncio.TimeoutError\<close> and every other \<^verbatim>\<open>Exception\<close>, so what
  \<^verbatim>\<open>gather\<close> gives back for the task is the \<^verbatim>\<open>ScrapeResult\<close> it returns.
  \<open>fetch code\<close> gives the outcomes of the calls of \<^verbatim>\<open>scrape_school_data\<close> made for a
  code, and \<open>jd code\<close> and \<open>bd code\<close> the draws of its call of the wrapper.
\<close>

definition retry_task ::
  "ScraperConfig \<Rightarrow> (string \<Rightarrow> int \<Rightarrow> attempt_outcome) \<Rightarrow> (string \<Rightarrow> int \<Rightarrow> real) \<Rightarrow>
   (string \<Rightarrow> int \<Rightarrow> real) \<Rightarrow> string \<Rightarrow> task_result" where
  "retry_task config fetch jd bd code =
     TaskResult (result (scrape_with_retry config (fetch code) (jd code) (bd code) code))"

text \<open>The trace read back: the batches submitted and the pauses slept.\<close>

fun submitted :: "job_event list \<Rightarrow> string list list" where
  "submitted [] = []"
| "submitted (Submit b # es) = b # submitted es"
| "submitted (BatchPause d # es) = submitted es"

fun pauses :: "job_event list \<Rightarrow> real list" where
  "pauses [] = []"
| "pauses (Submit b # es) = pauses es"
| "pauses (BatchPause d # es) = d # pauses es"

section \<open>The shapes the patterns accept\<close>

text \<open>
  What an item of a pattern matches, and the shapes of the two patterns said without the
  matcher: a pointed decimal is an optional minus sign, digits, a point and digits; a
  decimal number is an optional minus sign and digits, optionally followed by a point and
  further digits; \<open>number_prefix\<close> is the longest such number at the start of a string
  (when there is one).
\<close>

fun item_matches :: "rx_item \<Rightarrow> string \<Rightarrow> bool" where
  "item_matches (Lit c) p = (p = [c])"
| "item_matches (Opt c) p = (p = [c] \<or> p = [])"
| "item_matches (Many1 cls) p = (p \<noteq> [] \<and> list_all (in_class cls) p)"
| "item_matches (Many0 cls) p = list_all (in_class cls) p"

definition pointed_decimal :: "string \<Rightarrow> bool" where
  "pointed_decimal s =
     (let u = (if take 1 s = ''-'' then drop 1 s else s);
          whole = takeWhile is_digit u;
          rest = dropWhile is_digit u
      in whole \<noteq> [] \<and> take 1 rest = ''.'' \<and> drop 1 rest \<noteq> [] \<and> list_all is_digit (drop 1 rest))"

definition contains_place :: "string \<Rightarrow> bool" where
  "contains_place link =
     (\<exists>pre lat lng post.
        link = pre @ ''place/'' @ lat @ '','' @ lng @ post \<and>
        pointed_decimal lat \<and> pointed_decimal lng)"

definition unsigned_number :: "string \<Rightarrow> bool" where
  "unsigned_number u =
     (takeWhile is_digit u \<noteq> [] \<and>
      (dropWhile is_digit u = [] \<or>
       (take 1 (dropWhile is_digit u) = ''.'' \<and> list_all is_digit (drop 1 (dropWhile is_digit u)))))"

definition decimal_number :: "string \<Rightarrow> bool" where
  "decimal_number s =
     (let u = (if take 1 s = ''-'' then drop 1 s else s);
          whole = takeWhile is_digit u;
          rest = dropWhile is_digit u
      in whole \<noteq> [] \<and> (rest = [] \<or> (take 1 rest = ''.'' \<and> list_all is_digit (drop 1 rest))))"

definition number_prefix :: "string \<Rightarrow> string" where
  "number_prefix s =
     (let sign = (if take 1 s = ''-'' then ''-'' else []);
          u = drop (length sign) s;
          whole = takeWhile is_digit u;
          rest = dropWhile is_digit u;
          frac = (if take 1 rest = ''.'' then ''.'' @ takeWhile is_digit (drop 1 rest) else [])
      in sign @ whole @ frac)"

section \<open>Names used in the statements and proofs about the job\<close>

text \<open>
  A result is saved when \<^verbatim>\<open>save_result_incrementally\<close> returns \<^verbatim>\<open>True\<close>; the text of a
  file is empty when the file is missing; \<open>after_item\<close> and \<open>after_batch\<close> are one
  round of the two loops.
\<close>

definition has_coordinates :: "ScrapeResult \<Rightarrow> bool" where
  "has_coordinates res =
     (case school_data res of
        None \<Rightarrow> False
      | Some sd \<Rightarrow>
          (case href sd of
             None \<Rightarrow> False
           | Some link \<Rightarrow> success sd \<and> link \<noteq> [] \<and> re_search place_pattern link \<noteq> None))"

definition file_text :: "filesystem \<Rightarrow> string \<Rightarrow> string" where
  "file_text files path = (case files path of None \<Rightarrow> [] | Some content \<Rightarrow> content)"

definition failure_entry :: "ScraperConfig \<Rightarrow> (nat \<Rightarrow> string) \<Rightarrow> nat \<times> task_result \<Rightarrow> string" where
  "failure_entry config clock item =
     (case snd item of
        TaskException e \<Rightarrow> []
      | TaskResult res \<Rightarrow>
          if has_coordinates res then []
          else result_ct_code res @ ''|'' @ or_else (last_error res) ''Unknown error'' @ ''|'' @
               clock (fst item) @ [CHR 0x0A])"

definition is_failure :: "task_result \<Rightarrow> bool" where
  "is_failure r = (case r of TaskException e \<Rightarrow> True | TaskResult res \<Rightarrow> \<not> has_coordinates res)"

definition after_item :: "ScraperConfig \<Rightarrow> (nat \<Rightarrow> string) \<Rightarrow> task_result \<Rightarrow> job_state \<Rightarrow> job_state" where
  "after_item config clock r st =
     (case r of
        TaskException e \<Rightarrow>
          st\<lparr> total_processed := total_processed st + 1,
              failed_count := failed_count st + 1,
              messages := messages st @ [LogException e] \<rparr>
      | TaskResult res \<Rightarrow>
          if has_coordinates res then
            st\<lparr> total_processed := total_processed st + 1,
                disk := fst (save_result_incrementally res config (disk st)),
                successful_count := successful_count st + 1,
                messages := messages st @ [PrintSaved (result_ct_code res)] \<rparr>
          else
            st\<lparr> total_processed := total_processed st + 1,
                disk := save_failed_code (result_ct_code res)
                          (or_else (last_error res) ''Unknown error'')
                          (clock (total_processed st + 1)) config (disk st),
                failed_count := failed_count st + 1,
                messages := messages st @ [PrintFailed (result_ct_code res) (last_error res)] \<rparr>)"

definition batch_events ::
  "ScraperConfig \<Rightarrow> (nat \<Rightarrow> real) \<Rightarrow> int \<Rightarrow> nat \<times> string list \<Rightarrow> job_event list" where
  "batch_events config pause_draw total_batches item =
     Submit (snd item) #
     (if int (fst item) < total_batches
      then [BatchPause (uniform (batch_delay_min config) (batch_delay_max config)
                          (pause_draw (fst item)))]
      else [])"

definition after_batch ::
  "ScraperConfig \<Rightarrow> (string \<Rightarrow> task_result) \<Rightarrow> (nat \<Rightarrow> real) \<Rightarrow> (nat \<Rightarrow> string) \<Rightarrow> int \<Rightarrow>
   nat \<times> string list \<Rightarrow> job_state \<Rightarrow> job_state" where
  "after_batch config run_task pause_draw clock total_batches item st =
     (let st2 = process_results config clock (map run_task (snd item))
                  (st\<lparr> job_trace := job_trace st @ [Submit (snd item)] \<rparr>)
      in if int (fst item) < total_batches then
           st2\<lparr> job_trace := job_trace st2 @
                  [BatchPause (uniform (batch_delay_min config) (batch_delay_max config)
                                 (pause_draw (fst item)))] \<rparr>
         else st2)"



definition item_message :: "task_result \<Rightarrow> job_message" where
  "item_message r =
     (case r of
        TaskException e \<Rightarrow> LogException e
      | TaskResult res \<Rightarrow>
          if has_coordinates res then PrintSaved (result_ct_code res)
          else PrintFailed (result_ct_code res) (last_error res))"

section \<open>Concrete inputs\<close>

text \<open>Inputs at which the theorems below are evaluated.\<close>

definition always_timeout :: "int \<Rightarrow> attempt_outcome" where
  "always_timeout a = RaisedTimeout ''slow''"

definition half :: "int \<Rightarrow> real" where
  "half a = 1 / 2"

definition jitter_at_2 :: "int \<Rightarrow> real" where
  "jitter_at_2 a = (if a = 2 then 1 / 2 else 0)"

definition capped_config :: ScraperConfig where
  "capped_config = ScraperConfig_default\<lparr> retry_max_attempts := 4, retry_max_delay := 2 \<rparr>"

definition found_record :: SchoolData where
  "found_record =
     \<lparr> text_content = Some ''Ver en mapa'',
       href = Some ''https://www.google.com/maps/place/19.4326,-99.1332/@19.4326,-99.1332,17z'',
       title = None,
       ct_code = Some ''09DPR0001A'',
       success = True,
       error_message = None \<rparr>"

definition not_found_record :: SchoolData where
  "not_found_record =
     \<lparr> text_content = None, href = None, title = None, ct_code = Some ''09DPR0001A'',
       success = False, error_message = Some ''Target element not found'' \<rparr>"

definition flaky :: "int \<Rightarrow> attempt_outcome" where
  "flaky a =
     (if a = 1 then Returned not_found_record
      else if a = 2 then RaisedException ''connection reset''
      else Returned found_record)"

definition dup_files :: filesystem where
  "dup_files = [''results_a.txt'' \<mapsto> ''09DPR0001A-19.1,-99.1-first\<newline>09DPR0001A-19.2,-99.2-second\<newline>'']"

definition two_files :: filesystem where
  "two_files =
     [''results_a.txt'' \<mapsto> ''09DPR0002B-19.1,-99.1-a\<newline>09DPR0001A-19.2,-99.2-b\<newline>'',
      ''results_b.txt'' \<mapsto> ''09DPR0001A-19.3,-99.3-c\<newline>'']"

definition rerun_files :: filesystem where
  "rerun_files =
     [''clave_ct_list_federal_primaria.txt'' \<mapsto>
        ''09DPR0001A\<newline>09DPR0002B\<newline> 09DPR0003C \<newline>\<newline>09DPR0004D\<newline>09DPR0005E'',
      ''scraper_progress_federal_primaria.txt'' \<mapsto>
        ''09DPR0002B-19.5,-99.25-https://www.google.com/maps/place/19.5,-99.25\<newline>'']"

definition saved_result :: "string \<Rightarrow> ScrapeResult" where
  "saved_result code =
     \<lparr> school_data = Some (found_record\<lparr> ct_code := Some code \<rparr>),
       result_ct_code = code, attempts = 1, last_error = None \<rparr>"

definition timed_out_result :: "string \<Rightarrow> ScrapeResult" where
  "timed_out_result code =
     \<lparr> school_data = None, result_ct_code = code, attempts = 3,
       last_error = Some ''Timeout: slow'' \<rparr>"

definition mixed_tasks :: "string \<Rightarrow> task_result" where
  "mixed_tasks code =
     (if code = ''09DPR0003C'' then TaskException ''browser crashed''
      else if code = ''09DPR0004D'' then TaskResult (timed_out_result code)
      else TaskResult (saved_result code))"

definition mid_draw :: "nat \<Rightarrow> real" where
  "mid_draw k = 1 / 2"

definition noon :: "nat \<Rightarrow> string" where
  "noon n = ''2025-01-01T12:00:00''"

definition sample_fetch :: "string \<Rightarrow> int \<Rightarrow> attempt_outcome" where
  "sample_fetch code a =
     (if code = ''09DPR0003C'' then RaisedException ''browser crashed''
      else if code = ''09DPR0004D'' then RaisedTimeout ''slow''
      else if code = ''09DPR0005E'' then Returned (not_found_record\<lparr> ct_code := Some code \<rparr>)
      else if a = 1 then RaisedException ''connection reset''
      else Returned (found_record\<lparr> ct_code := Some code \<rparr>))"

definition mid_draws :: "string \<Rightarrow> int \<Rightarrow> real" where
  "mid_draws code a = 1 / 2"

definition repeated_code_files :: filesystem where
  "repeated_code_files =
     [''ct_codes_coords_googlelinks_federal_primaria.txt'' \<mapsto>
        ''09DPR0001A-19.5,-99.25\<newline>09DPR0001A-20.5,-98.75\<newline>'']"

definition search_page_record :: SchoolData where
  "search_page_record =
     found_record\<lparr> href := Some ''https://www.google.com/maps/search/escuela+primaria'' \<rparr>"

definition no_place_result :: ScrapeResult where
  "no_place_result =
     \<lparr> school_data = Some search_page_record,
       result_ct_code = ''09DPR0001A'', attempts = 1, last_error = None \<rparr>"

definition start_state :: job_state where
  "start_state =
     \<lparr> disk = Map.empty, successful_count = 0, failed_count = 0, total_processed = 0,
       job_trace = [], messages = [] \<rparr>"

section \<open>Properties of the retry wrapper\<close>
lemma attempts_made_Nil: "attempts_made scrape [] = []"
  by (simp add: attempts_made_def)

lemma attempts_made_Cons: "attempts_made scrape (a # as) = a # (if succeeded (scrape a) then [] else attempts_made scrape as)"
  by (simp add: attempts_made_def)


lemma retry_loop_success:
  assumes "succeeded (scrape a)"
  shows "retry_loop cfg scrape jd bd code (a # as) st =
     (let st2 = begin_attempt cfg jd code a st
      in st2\<lparr> result := (result st2)\<lparr> school_data := (case scrape a of Returned sd \<Rightarrow> Some sd | _ \<Rightarrow> None) \<rparr> \<rparr>)"
  using assms by (cases "scrape a") (simp_all add: succeeded_def begin_attempt_def Let_def)

lemma retry_loop_failure:
  assumes "\<not> succeeded (scrape a)"
  shows "retry_loop cfg scrape jd bd code (a # as) st =
     retry_loop cfg scrape jd bd code as
       (backoff_step cfg bd a (set_last_error (recorded_error (scrape a)) (begin_attempt cfg jd code a st)))"
  using assms by (cases "scrape a") (simp_all add: succeeded_def recorded_error_def begin_attempt_def Let_def)

lemma retry_loop_trace:
  "trace (retry_loop cfg scrape jd bd code as st) =
     trace st @ concat (map (attempt_events cfg scrape jd bd code) (attempts_made scrape as))"
proof (induction as arbitrary: st)
  case Nil
  then show ?case by (simp add: attempts_made_Nil)
next
  case (Cons a as)
  show ?case
  proof (cases "succeeded (scrape a)")
    case True
    then show ?thesis
      by (simp add: retry_loop_success attempts_made_Cons attempt_events_def begin_attempt_def Let_def
               del: retry_loop.simps)
  next
    case False
    then show ?thesis
      by (simp add: retry_loop_failure Cons.IH attempts_made_Cons attempt_events_def begin_attempt_def
                    backoff_step_def set_last_error_def Let_def
               del: retry_loop.simps)
  qed
qed

lemma retry_loop_attempts:
  "attempts (result (retry_loop cfg scrape jd bd code as st)) =
     (if attempts_made scrape as = [] then attempts (result st) else last (attempts_made scrape as))"
proof (induction as arbitrary: st)
  case Nil
  then show ?case by (simp add: attempts_made_Nil)
next
  case (Cons a as)
  show ?case
  proof (cases "succeeded (scrape a)")
    case True
    then show ?thesis
      by (simp add: retry_loop_success attempts_made_Cons begin_attempt_def Let_def
               del: retry_loop.simps)
  next
    case False
    then show ?thesis
      by (simp add: retry_loop_failure Cons.IH attempts_made_Cons begin_attempt_def
                    backoff_step_def set_last_error_def Let_def
               del: retry_loop.simps)
  qed
qed

lemma retry_loop_school_data:
  "school_data (result (retry_loop cfg scrape jd bd code as st)) =
     (case dropWhile (\<lambda>a. \<not> succeeded (scrape a)) as of
        [] \<Rightarrow> school_data (result st)
      | a # _ \<Rightarrow> (case scrape a of Returned sd \<Rightarrow> Some sd | _ \<Rightarrow> None))"
proof (induction as arbitrary: st)
  case Nil
  then show ?case by simp
next
  case (Cons a as)
  show ?case
  proof (cases "succeeded (scrape a)")
    case True
    then show ?thesis
      by (simp add: retry_loop_success begin_attempt_def Let_def del: retry_loop.simps cong: list.case_cong)
  next
    case False
    then show ?thesis
      by (simp add: retry_loop_failure Cons.IH begin_attempt_def
                    backoff_step_def set_last_error_def Let_def
               del: retry_loop.simps cong: list.case_cong)
  qed
qed

lemma retry_loop_last_error:
  "last_error (result (retry_loop cfg scrape jd bd code as st)) =
     (if takeWhile (\<lambda>a. \<not> succeeded (scrape a)) as = [] then last_error (result st)
      else recorded_error (scrape (last (takeWhile (\<lambda>a. \<not> succeeded (scrape a)) as))))"
proof (induction as arbitrary: st)
  case Nil
  then show ?case by simp
next
  case (Cons a as)
  show ?case
  proof (cases "succeeded (scrape a)")
    case True
    then show ?thesis
      by (simp add: retry_loop_success begin_attempt_def Let_def del: retry_loop.simps)
  next
    case False
    then show ?thesis
      by (simp add: retry_loop_failure Cons.IH begin_attempt_def
                    backoff_step_def set_last_error_def Let_def
               del: retry_loop.simps cong: list.case_cong)
  qed
qed

lemma retry_loop_ct_code:
  "result_ct_code (result (retry_loop cfg scrape jd bd code as st)) = result_ct_code (result st)"
proof (induction as arbitrary: st)
  case Nil
  then show ?case by simp
next
  case (Cons a as)
  show ?case
  proof (cases "succeeded (scrape a)")
    case True
    then show ?thesis
      by (simp add: retry_loop_success begin_attempt_def Let_def del: retry_loop.simps)
  next
    case False
    then show ?thesis
      by (simp add: retry_loop_failure Cons.IH begin_attempt_def
                    backoff_step_def set_last_error_def Let_def
               del: retry_loop.simps)
  qed
qed

lemma attempts_made_upto:
  "i \<le> m \<Longrightarrow>
   attempts_made scrape [i..m] = [i .. last (attempts_made scrape [i..m])] \<and>
   i \<le> last (attempts_made scrape [i..m]) \<and> last (attempts_made scrape [i..m]) \<le> m \<and>
   (\<forall>a. i \<le> a \<and> a < last (attempts_made scrape [i..m]) \<longrightarrow> \<not> succeeded (scrape a)) \<and>
   (succeeded (scrape (last (attempts_made scrape [i..m]))) \<or> last (attempts_made scrape [i..m]) = m)"
proof (induction i m rule: upto.induct)
  case (1 i m)
  have unfold: "[i..m] = i # [i + 1..m]"
    using "1.prems" by (rule upto_rec1)
  show ?case
  proof (cases "succeeded (scrape i)")
    case True
    then show ?thesis
      using "1.prems" by (auto simp add: unfold attempts_made_Cons)
  next
    case failed: False
    show ?thesis
    proof (cases "i + 1 \<le> m")
      case True
      let ?k = "last (attempts_made scrape [i + 1..m])"
      have ih: "attempts_made scrape [i + 1..m] = [i + 1 .. ?k]" "i + 1 \<le> ?k" "?k \<le> m"
        "\<forall>a. i + 1 \<le> a \<and> a < ?k \<longrightarrow> \<not> succeeded (scrape a)"
        "succeeded (scrape ?k) \<or> ?k = m"
        using "1.IH"[OF "1.prems" True] by blast+
      have ne: "attempts_made scrape [i + 1..m] \<noteq> []"
        using ih(1,2) by (metis upto_Nil not_le)
      have last_eq: "last (attempts_made scrape [i..m]) = ?k"
        using failed ne by (simp add: unfold attempts_made_Cons)
      have "attempts_made scrape [i..m] = i # [i + 1 .. ?k]"
        using failed ih(1) by (simp add: unfold attempts_made_Cons)
      also have "\<dots> = [i .. ?k]"
        using ih(2) by (simp add: upto_rec1[of i ?k])
      finally have made: "attempts_made scrape [i..m] = [i .. ?k]" .
      have earlier: "\<forall>a. i \<le> a \<and> a < ?k \<longrightarrow> \<not> succeeded (scrape a)"
      proof (intro allI impI)
        fix a assume "i \<le> a \<and> a < ?k"
        then consider "a = i" | "i + 1 \<le> a \<and> a < ?k" by linarith
        then show "\<not> succeeded (scrape a)"
          using failed ih(4) by cases auto
      qed
      show ?thesis
        unfolding last_eq using made ih(2,3,5) earlier by auto
    next
      case False
      then have "[i + 1..m] = []" by simp
      then have "attempts_made scrape [i..m] = [i]"
        by (simp add: unfold attempts_made_Cons attempts_made_Nil)
      moreover have "i = m" using False "1.prems" by linarith
      ultimately show ?thesis by auto
    qed
  qed
qed


lemma scrape_with_retry_trace:
  "trace (scrape_with_retry cfg scrape jd bd code) =
     concat (map (attempt_events cfg scrape jd bd code)
       (attempts_made scrape [1 .. retry_max_attempts cfg]))"
  by (simp add: scrape_with_retry_def retry_loop_trace)

lemma scrape_with_retry_attempts:
  "attempts (result (scrape_with_retry cfg scrape jd bd code)) =
     (if retry_max_attempts cfg < 1 then 0
      else last (attempts_made scrape [1 .. retry_max_attempts cfg]))"
proof (cases "retry_max_attempts cfg < 1")
  case True
  then show ?thesis
    by (simp add: scrape_with_retry_def retry_loop_attempts attempts_made_Nil)
next
  case False
  then have "1 \<le> retry_max_attempts cfg" by simp
  from attempts_made_upto[OF this, of scrape]
  have "attempts_made scrape [1 .. retry_max_attempts cfg] \<noteq> []"
    by (metis upto_Nil not_le)
  with False show ?thesis
    by (simp add: scrape_with_retry_def retry_loop_attempts)
qed

lemma scrape_with_retry_made:
  "attempts_made scrape [1 .. retry_max_attempts cfg] =
     [1 .. attempts (result (scrape_with_retry cfg scrape jd bd code))]"
proof (cases "retry_max_attempts cfg < 1")
  case True
  then show ?thesis
    by (simp add: scrape_with_retry_attempts attempts_made_Nil)
next
  case False
  then have "1 \<le> retry_max_attempts cfg" by simp
  from attempts_made_upto[OF this, of scrape] False show ?thesis
    by (simp add: scrape_with_retry_attempts)
qed

lemma scrape_with_retry_bounds:
  assumes "1 \<le> retry_max_attempts cfg"
  shows "1 \<le> attempts (result (scrape_with_retry cfg scrape jd bd code))"
    and "attempts (result (scrape_with_retry cfg scrape jd bd code)) \<le> retry_max_attempts cfg"
    and "\<forall>a. 1 \<le> a \<and> a < attempts (result (scrape_with_retry cfg scrape jd bd code))
           \<longrightarrow> \<not> succeeded (scrape a)"
    and "succeeded (scrape (attempts (result (scrape_with_retry cfg scrape jd bd code)))) \<or>
         attempts (result (scrape_with_retry cfg scrape jd bd code)) = retry_max_attempts cfg"
  using attempts_made_upto[OF assms, of scrape] assms
  by (simp_all add: scrape_with_retry_attempts)


lemma scrape_with_retry_split:
  assumes m: "1 \<le> retry_max_attempts cfg"
    and k: "k = attempts (result (scrape_with_retry cfg scrape jd bd code))"
  shows "takeWhile (\<lambda>a. \<not> succeeded (scrape a)) [1 .. retry_max_attempts cfg] =
           (if succeeded (scrape k) then [1 .. k - 1] else [1 .. k])"
    and "dropWhile (\<lambda>a. \<not> succeeded (scrape a)) [1 .. retry_max_attempts cfg] =
           (if succeeded (scrape k) then k # [k + 1 .. retry_max_attempts cfg] else [])"
proof -
  note b = scrape_with_retry_bounds[OF m, of scrape jd bd code, folded k]
  have fails: "\<forall>a\<in>set [1 .. k - 1]. \<not> succeeded (scrape a)"
    using b(3) by auto
  have split: "[1 .. retry_max_attempts cfg] = [1 .. k - 1] @ k # [k + 1 .. retry_max_attempts cfg]"
    using b(1,2) by (rule upto_split3)
  show "takeWhile (\<lambda>a. \<not> succeeded (scrape a)) [1 .. retry_max_attempts cfg] =
           (if succeeded (scrape k) then [1 .. k - 1] else [1 .. k])"
  proof (cases "succeeded (scrape k)")
    case True
    then show ?thesis
      using fails by (subst split) (simp del: set_upto)
  next
    case False
    with b(4) have km: "k = retry_max_attempts cfg" by simp
    have "\<forall>a\<in>set [1 .. k]. \<not> succeeded (scrape a)"
    proof
      fix a assume "a \<in> set [1 .. k]"
      then have "a = k \<or> (1 \<le> a \<and> a < k)" by auto
      then show "\<not> succeeded (scrape a)" using False b(3) by auto
    qed
    then show ?thesis using False km by simp
  qed
  show "dropWhile (\<lambda>a. \<not> succeeded (scrape a)) [1 .. retry_max_attempts cfg] =
           (if succeeded (scrape k) then k # [k + 1 .. retry_max_attempts cfg] else [])"
  proof (cases "succeeded (scrape k)")
    case True
    then show ?thesis
      using fails by (subst split) (simp del: set_upto)
  next
    case False
    with b(4) have km: "k = retry_max_attempts cfg" by simp
    have "\<forall>a\<in>set [1 .. k]. \<not> succeeded (scrape a)"
    proof
      fix a assume "a \<in> set [1 .. k]"
      then have "a = k \<or> (1 \<le> a \<and> a < k)" by auto
      then show "\<not> succeeded (scrape a)" using False b(3) by auto
    qed
    then show ?thesis using False km by simp
  qed
qed

lemma trace_requests:
  "filter (\<lambda>e. case e of Request _ _ \<Rightarrow> True | _ \<Rightarrow> False)
     (concat (map (attempt_events cfg scrape jd bd code) as)) = map (\<lambda>a. Request a code) as"
  by (induction as) (simp_all add: attempt_events_def)

text \<open>
  Claim C5. Every outcome of an attempt that is not a success (a returned record whose flag
  is off, a timeout, any other exception) is retried: with \<open>k\<close> the attempts made, the
  requests are those of attempts 1 to \<open>k\<close>; an attempt before the last is exactly a failed
  one below the ceiling; the call ends only at a success or at the ceiling; the record of
  the success is returned, and the stored error is that of the last failed attempt.
\<close>

theorem scrape_with_retry_retries_every_failure:
  "let st = scrape_with_retry cfg scrape jd bd code;
       k = attempts (result st);
       m = retry_max_attempts cfg
   in (if 1 \<le> m then 1 \<le> k \<and> k \<le> m \<and> (succeeded (scrape k) \<or> k = m) else k = 0) \<and>
      filter (\<lambda>e. case e of Request _ _ \<Rightarrow> True | _ \<Rightarrow> False) (trace st) =
        map (\<lambda>a. Request a code) [1 .. k] \<and>
      (\<forall>a\<in>{1..k}. a < k \<longleftrightarrow> \<not> succeeded (scrape a) \<and> a < m) \<and>
      school_data (result st) =
        (if 1 \<le> m \<and> succeeded (scrape k)
         then (case scrape k of Returned sd \<Rightarrow> Some sd | _ \<Rightarrow> None) else None) \<and>
      last_error (result st) =
        (if 1 \<le> m \<and> \<not> succeeded (scrape k) then recorded_error (scrape k)
         else if 2 \<le> k then recorded_error (scrape (k - 1))
         else None)"
proof -
  let ?st = "scrape_with_retry cfg scrape jd bd code"
  let ?k = "attempts (result ?st)"
  let ?m = "retry_max_attempts cfg"
  let ?P = "\<lambda>a. \<not> succeeded (scrape a)"
  have k0: "\<not> 1 \<le> ?m \<Longrightarrow> ?k = 0"
    by (simp add: scrape_with_retry_attempts)
  have range: "if 1 \<le> ?m then 1 \<le> ?k \<and> ?k \<le> ?m \<and> (succeeded (scrape ?k) \<or> ?k = ?m) else ?k = 0"
    using scrape_with_retry_bounds(1,2,4)[of cfg scrape jd bd code] k0 by auto
  have reqs: "filter (\<lambda>e. case e of Request _ _ \<Rightarrow> True | _ \<Rightarrow> False) (trace ?st) =
        map (\<lambda>a. Request a code) [1 .. ?k]"
    using scrape_with_retry_made[of scrape cfg jd bd code]
    by (simp add: scrape_with_retry_trace trace_requests)
  have iff: "\<forall>a\<in>{1..?k}. a < ?k \<longleftrightarrow> \<not> succeeded (scrape a) \<and> a < ?m"
  proof
    fix a assume a: "a \<in> {1..?k}"
    then have "1 \<le> ?k" by simp
    with k0 have m1: "1 \<le> ?m" by fastforce
    note b = scrape_with_retry_bounds[OF m1, of scrape jd bd code]
    from a b(2,3,4) show "a < ?k \<longleftrightarrow> \<not> succeeded (scrape a) \<and> a < ?m"
      by (cases "a = ?k") auto
  qed
  have sd: "school_data (result ?st) =
        (if 1 \<le> ?m \<and> succeeded (scrape ?k)
         then (case scrape ?k of Returned sd \<Rightarrow> Some sd | _ \<Rightarrow> None) else None)"
  proof (cases "1 \<le> ?m")
    case True
    have "school_data (result ?st) =
       (case dropWhile ?P [1 .. ?m] of [] \<Rightarrow> None
        | a # _ \<Rightarrow> (case scrape a of Returned sd \<Rightarrow> Some sd | _ \<Rightarrow> None))"
      by (simp add: scrape_with_retry_def retry_loop_school_data cong: list.case_cong)
    then show ?thesis
      using True by (simp add: scrape_with_retry_split(2)[OF True refl[of ?k]])
  next
    case False
    then show ?thesis by (simp add: scrape_with_retry_def)
  qed
  have le: "last_error (result ?st) =
        (if 1 \<le> ?m \<and> \<not> succeeded (scrape ?k) then recorded_error (scrape ?k)
         else if 2 \<le> ?k then recorded_error (scrape (?k - 1))
         else None)"
  proof (cases "1 \<le> ?m")
    case True
    note b = scrape_with_retry_bounds[OF True, of scrape jd bd code]
    have eq: "last_error (result ?st) =
       (if takeWhile ?P [1 .. ?m] = [] then None
        else recorded_error (scrape (last (takeWhile ?P [1 .. ?m]))))"
      by (simp add: scrape_with_retry_def retry_loop_last_error)
    show ?thesis
    proof (cases "succeeded (scrape ?k)")
      case s: True
      show ?thesis
      proof (cases "2 \<le> ?k")
        case True
        then have "[1 .. ?k - 1] = [1 .. ?k - 1 - 1] @ [?k - 1]"
          by (intro upto_rec2) simp
        then have "[1 .. ?k - 1] \<noteq> [] \<and> last [1 .. ?k - 1] = ?k - 1"
          by (metis snoc_eq_iff_butlast)
        then show ?thesis
          using s True \<open>1 \<le> ?m\<close> by (simp add: eq scrape_with_retry_split(1)[OF \<open>1 \<le> ?m\<close> refl[of ?k]])
      next
        case False
        then show ?thesis
          using s \<open>1 \<le> ?m\<close> by (simp add: eq scrape_with_retry_split(1)[OF \<open>1 \<le> ?m\<close> refl[of ?k]])
      qed
    next
      case f: False
      have "[1 .. ?k] = [1 .. ?k - 1] @ [?k]"
        using b(1) by (intro upto_rec2)
      then have "[1 .. ?k] \<noteq> [] \<and> last [1 .. ?k] = ?k"
        by (metis snoc_eq_iff_butlast)
      then show ?thesis
        using f \<open>1 \<le> ?m\<close> by (simp add: eq scrape_with_retry_split(1)[OF \<open>1 \<le> ?m\<close> refl[of ?k]])
    qed
  next
    case False
    then show ?thesis using k0 by (simp add: scrape_with_retry_def)
  qed
  show ?thesis
    unfolding Let_def using range reqs iff sd le by blast
qed

text \<open>
  Claim C1. With \<open>k\<close> the value of the attempt counter at the end of a call, the counter
  has taken the values 1 to \<open>k\<close> and \<open>k\<close> is at most the ceiling
  \<^verbatim>\<open>retry_max_attempts\<close>. The effects of the call are, for each attempt, the sleep before
  the request and the request, followed for every failed attempt below the ceiling by one
  backoff sleep of \<open>min (base * 2 ^ (a - 1)) max_delay\<close> plus a jitter; for draws in the
  unit interval the jitter is at most a tenth of that value in size, and lies between zero
  and a tenth of it when the value is not negative.
\<close>

theorem scrape_with_retry_backoff_schedule:
  assumes "\<forall>a. 0 \<le> bd a \<and> bd a \<le> 1"
  shows
    "let st = scrape_with_retry cfg scrape jd bd code; k = attempts (result st) in
       k \<le> max 0 (retry_max_attempts cfg) \<and>
       (\<forall>a\<in>{1..k}. a < k \<longleftrightarrow> \<not> succeeded (scrape a) \<and> a < retry_max_attempts cfg) \<and>
       trace st =
         concat (map (\<lambda>a.
           [RequestJitter a (uniform (request_jitter_min cfg) (request_jitter_max cfg) (jd a)),
            Request a code] @
           (if a < k
            then [Backoff a (min (retry_base_delay cfg * 2 ^ nat (a - 1)) (retry_max_delay cfg) +
                             uniform 0 (min (retry_base_delay cfg * 2 ^ nat (a - 1)) (retry_max_delay cfg) * (1 / 10)) (bd a))]
            else [])) [1 .. k]) \<and>
       (\<forall>a\<in>{1..<k}.
          let d = min (retry_base_delay cfg * 2 ^ nat (a - 1)) (retry_max_delay cfg);
              j = uniform 0 (d * (1 / 10)) (bd a)
          in \<bar>j\<bar> \<le> \<bar>d\<bar> / 10 \<and> (0 \<le> d \<longrightarrow> 0 \<le> j \<and> j \<le> d / 10))"
proof -
  let ?st = "scrape_with_retry cfg scrape jd bd code"
  let ?k = "attempts (result ?st)"
  let ?m = "retry_max_attempts cfg"
  have bound: "?k \<le> max 0 ?m"
  proof (cases "?m < 1")
    case True
    then show ?thesis by (simp add: scrape_with_retry_attempts)
  next
    case False
    then show ?thesis using scrape_with_retry_bounds(2)[of cfg scrape jd bd code] by simp
  qed
  have iff: "\<forall>a\<in>{1..?k}. a < ?k \<longleftrightarrow> \<not> succeeded (scrape a) \<and> a < ?m"
  proof
    fix a assume a: "a \<in> {1..?k}"
    then have k1: "1 \<le> ?k" by simp
    have m1: "1 \<le> ?m"
    proof (rule ccontr)
      assume "\<not> 1 \<le> ?m"
      then have "?k = 0" by (simp add: scrape_with_retry_attempts)
      with k1 show False by simp
    qed
    note b = scrape_with_retry_bounds[OF m1, of scrape jd bd code]
    show "a < ?k \<longleftrightarrow> \<not> succeeded (scrape a) \<and> a < ?m"
    proof
      assume "a < ?k"
      with a b(2) b(3) show "\<not> succeeded (scrape a) \<and> a < ?m" by auto
    next
      assume h: "\<not> succeeded (scrape a) \<and> a < ?m"
      show "a < ?k"
      proof (rule ccontr)
        assume "\<not> a < ?k"
        with a have "a = ?k" by simp
        with b(4) h show False by auto
      qed
    qed
  qed
  have "trace ?st = concat (map (attempt_events cfg scrape jd bd code) [1 .. ?k])"
    using scrape_with_retry_made[of scrape cfg jd bd code]
    by (simp add: scrape_with_retry_trace)
  also have "map (attempt_events cfg scrape jd bd code) [1 .. ?k] =
     map (\<lambda>a.
           [RequestJitter a (uniform (request_jitter_min cfg) (request_jitter_max cfg) (jd a)),
            Request a code] @
           (if a < ?k
            then [Backoff a (min (retry_base_delay cfg * 2 ^ nat (a - 1)) (retry_max_delay cfg) +
                             uniform 0 (min (retry_base_delay cfg * 2 ^ nat (a - 1)) (retry_max_delay cfg) * (1 / 10)) (bd a))]
            else [])) [1 .. ?k]"
    using iff by (intro map_cong) (auto simp: attempt_events_def backoff_delay_def)
  finally have tr: "trace ?st = concat (map (\<lambda>a.
           [RequestJitter a (uniform (request_jitter_min cfg) (request_jitter_max cfg) (jd a)),
            Request a code] @
           (if a < ?k
            then [Backoff a (min (retry_base_delay cfg * 2 ^ nat (a - 1)) (retry_max_delay cfg) +
                             uniform 0 (min (retry_base_delay cfg * 2 ^ nat (a - 1)) (retry_max_delay cfg) * (1 / 10)) (bd a))]
            else [])) [1 .. ?k])" .
  have jit: "\<forall>a\<in>{1..<?k}.
          let d = min (retry_base_delay cfg * 2 ^ nat (a - 1)) (retry_max_delay cfg);
              j = uniform 0 (d * (1 / 10)) (bd a)
          in \<bar>j\<bar> \<le> \<bar>d\<bar> / 10 \<and> (0 \<le> d \<longrightarrow> 0 \<le> j \<and> j \<le> d / 10)"
  proof
    fix a
    let ?d = "min (retry_base_delay cfg * 2 ^ nat (a - 1)) (retry_max_delay cfg)"
    have u: "0 \<le> bd a" "bd a \<le> 1" using assms by auto
    have "\<bar>?d * (1 / 10) * bd a\<bar> = \<bar>?d\<bar> / 10 * bd a"
      using u(1) by (simp add: abs_mult)
    also have "\<dots> \<le> \<bar>?d\<bar> / 10 * 1"
      using u(2) by (intro mult_left_mono) simp_all
    finally have abs: "\<bar>uniform 0 (?d * (1 / 10)) (bd a)\<bar> \<le> \<bar>?d\<bar> / 10"
      by (simp add: uniform_def)
    have pos: "0 \<le> ?d \<longrightarrow> 0 \<le> uniform 0 (?d * (1 / 10)) (bd a) \<and> uniform 0 (?d * (1 / 10)) (bd a) \<le> ?d / 10"
    proof
      assume d: "0 \<le> ?d"
      have "?d * (1 / 10) * bd a \<le> ?d * (1 / 10) * 1"
        using d u(2) by (intro mult_left_mono) simp_all
      moreover have "0 \<le> ?d * (1 / 10) * bd a" using d u(1) by simp
      ultimately show "0 \<le> uniform 0 (?d * (1 / 10)) (bd a) \<and> uniform 0 (?d * (1 / 10)) (bd a) \<le> ?d / 10"
        by (simp add: uniform_def)
    qed
    show "let d = ?d; j = uniform 0 (d * (1 / 10)) (bd a)
          in \<bar>j\<bar> \<le> \<bar>d\<bar> / 10 \<and> (0 \<le> d \<longrightarrow> 0 \<le> j \<and> j \<le> d / 10)"
      unfolding Let_def using abs pos by blast
  qed
  show ?thesis
    unfolding Let_def using bound iff tr jit[unfolded Let_def] by (intro conjI)
qed


lemma backoff_in_events:
  "Backoff a d \<in> set (concat (map (attempt_events cfg scrape jd bd code) as)) \<Longrightarrow>
   a \<in> set as \<and> d = backoff_delay cfg a + uniform 0 (backoff_delay cfg a * (1 / 10)) (bd a)"
  by (induction as) (auto simp: attempt_events_def split: if_splits)

lemma backoff_in_trace:
  assumes "Backoff a d \<in> set (trace (scrape_with_retry cfg scrape jd bd code))"
  shows "1 \<le> a" and "d = backoff_delay cfg a + uniform 0 (backoff_delay cfg a * (1 / 10)) (bd a)"
proof -
  from assms have
    "Backoff a d \<in> set (concat (map (attempt_events cfg scrape jd bd code)
        [1 .. attempts (result (scrape_with_retry cfg scrape jd bd code))]))"
    using scrape_with_retry_made[of scrape cfg jd bd code]
    by (simp add: scrape_with_retry_trace)
  from backoff_in_events[OF this]
  show "1 \<le> a" and "d = backoff_delay cfg a + uniform 0 (backoff_delay cfg a * (1 / 10)) (bd a)"
    by simp_all
qed

lemma backoff_delay_mono:
  assumes "0 \<le> retry_base_delay cfg" and "1 \<le> i" and "i \<le> j"
  shows "backoff_delay cfg i \<le> backoff_delay cfg j"
proof -
  have "nat (i - 1) \<le> nat (j - 1)" using assms by simp
  then have "(2::real) ^ nat (i - 1) \<le> 2 ^ nat (j - 1)"
    by (intro power_increasing) simp_all
  then have "retry_base_delay cfg * 2 ^ nat (i - 1) \<le> retry_base_delay cfg * 2 ^ nat (j - 1)"
    using assms(1) by (rule mult_left_mono)
  then show ?thesis
    unfolding backoff_delay_def by (rule min.mono) simp
qed

text \<open>
  Claim C4, amended. For a base delay that is not negative and attempts \<open>i < j\<close> that both
  sleep a backoff, the delay before jitter does not decrease from \<open>i\<close> to \<open>j\<close>; and when
  the exponential term of attempt \<open>j\<close> has not passed the cap, the delay slept after
  \<open>i\<close>, jitter included, is at most the one slept after \<open>j\<close>.
\<close>

theorem backoff_monotone_below_cap:
  assumes draws: "\<forall>a. 0 \<le> bd a \<and> bd a \<le> 1"
    and base: "0 \<le> retry_base_delay cfg"
    and bi: "Backoff i di \<in> set (trace (scrape_with_retry cfg scrape jd bd code))"
    and bj: "Backoff j dj \<in> set (trace (scrape_with_retry cfg scrape jd bd code))"
    and ij: "i < j"
  shows "min (retry_base_delay cfg * 2 ^ nat (i - 1)) (retry_max_delay cfg) \<le>
           min (retry_base_delay cfg * 2 ^ nat (j - 1)) (retry_max_delay cfg) \<and>
         (retry_base_delay cfg * 2 ^ nat (j - 1) \<le> retry_max_delay cfg \<longrightarrow> di \<le> dj)"
proof
  note i = backoff_in_trace[OF bi] and j = backoff_in_trace[OF bj]
  show "min (retry_base_delay cfg * 2 ^ nat (i - 1)) (retry_max_delay cfg) \<le>
           min (retry_base_delay cfg * 2 ^ nat (j - 1)) (retry_max_delay cfg)"
    using backoff_delay_mono[OF base i(1), of j] ij by (simp add: backoff_delay_def)
  show "retry_base_delay cfg * 2 ^ nat (j - 1) \<le> retry_max_delay cfg \<longrightarrow> di \<le> dj"
  proof
    assume uncapped: "retry_base_delay cfg * 2 ^ nat (j - 1) \<le> retry_max_delay cfg"
    let ?b = "retry_base_delay cfg"
    have "nat (j - 1) = Suc (nat (j - 1) - 1)" using i(1) ij by simp
    moreover have "nat (i - 1) \<le> nat (j - 1) - 1" using i(1) ij by simp
    then have "(2::real) ^ nat (i - 1) \<le> 2 ^ (nat (j - 1) - 1)"
      by (intro power_increasing) simp_all
    ultimately have pw: "2 * (2::real) ^ nat (i - 1) \<le> 2 ^ nat (j - 1)"
      by (metis mult_left_mono power_Suc zero_le_numeral)
    have Dj: "backoff_delay cfg j = ?b * 2 ^ nat (j - 1)"
      using uncapped by (simp add: backoff_delay_def)
    have Di_le: "backoff_delay cfg i \<le> ?b * 2 ^ nat (i - 1)"
      by (simp add: backoff_delay_def)
    have Di0: "0 \<le> backoff_delay cfg i"
    proof -
      have "0 \<le> ?b * 2 ^ nat (i - 1)" using base by simp
      moreover have "0 \<le> retry_max_delay cfg"
        using uncapped base by (meson mult_nonneg_nonneg order_trans zero_le_numeral zero_le_power)
      ultimately show ?thesis by (simp add: backoff_delay_def)
    qed
    have Dj0: "0 \<le> backoff_delay cfg j" using Dj base by simp
    have ui: "bd i \<le> 1" and uj: "0 \<le> bd j" using draws by auto
    have "di \<le> backoff_delay cfg i + backoff_delay cfg i * (1 / 10)"
    proof -
      have "backoff_delay cfg i * (1 / 10) * bd i \<le> backoff_delay cfg i * (1 / 10) * 1"
        using Di0 ui by (intro mult_left_mono) simp_all
      then show ?thesis by (simp add: i(2) uniform_def)
    qed
    also have "\<dots> \<le> 2 * backoff_delay cfg i" using Di0 by simp
    also have "\<dots> \<le> 2 * (?b * 2 ^ nat (i - 1))" using Di_le by simp
    also have "\<dots> = ?b * (2 * 2 ^ nat (i - 1))" by simp
    also have "\<dots> \<le> ?b * 2 ^ nat (j - 1)" using pw base by (rule mult_left_mono)
    also have "\<dots> = backoff_delay cfg j" using Dj by simp
    also have "\<dots> \<le> dj"
    proof -
      have "0 \<le> backoff_delay cfg j * (1 / 10) * bd j"
        using Dj0 uj by simp
      then show ?thesis by (simp add: j(2) uniform_def)
    qed
    finally show "di \<le> dj" .
  qed
qed

lemma upto_from_1: "[1 .. numeral n] = 1 # [2 .. numeral n]"
  by (simp add: upto_rec1)

lemmas retry_eval =
  upto_from_1 scrape_with_retry_def backoff_step_def backoff_delay_def set_last_error_def uniform_def
  ScraperConfig_default_def capped_config_def always_timeout_def half_def jitter_at_2_def Let_def
  flaky_def found_record_def not_found_record_def succeeded_def recorded_error_def

text \<open>
  Claim C4 as stated fails once the cap is reached: with a cap of 2 seconds and four
  attempts, attempts 2 and 3 both sleep the cap of 2 seconds plus jitter, and a draw of one
  half after attempt 2 and of zero after attempt 3 gives 2.1 seconds and then 2 seconds.
\<close>

theorem jittered_backoff_not_monotone_at_cap:
  "trace (scrape_with_retry capped_config always_timeout half jitter_at_2 ''09DPR0001A'') =
     [RequestJitter 1 (3 / 10), Request 1 ''09DPR0001A'', Backoff 1 1,
      RequestJitter 2 (3 / 10), Request 2 ''09DPR0001A'', Backoff 2 (21 / 10),
      RequestJitter 3 (3 / 10), Request 3 ''09DPR0001A'', Backoff 3 2,
      RequestJitter 4 (3 / 10), Request 4 ''09DPR0001A''] \<and>
   \<not> ((21 / 10 :: real) \<le> 2)"
  by (simp add: retry_eval)

theorem backoff_monotone_below_cap_witness:
  "(\<forall>a. 0 \<le> half a \<and> half a \<le> 1) \<and> 0 \<le> retry_base_delay ScraperConfig_default \<and>
   Backoff 1 (21 / 20) \<in> set (trace (scrape_with_retry ScraperConfig_default always_timeout half half ''09DPR0001A'')) \<and>
   Backoff 2 (21 / 10) \<in> set (trace (scrape_with_retry ScraperConfig_default always_timeout half half ''09DPR0001A'')) \<and>
   retry_base_delay ScraperConfig_default * 2 ^ nat (2 - 1) \<le> retry_max_delay ScraperConfig_default \<and>
   (21 / 20 :: real) \<le> 21 / 10"
proof -
  have h1: "\<forall>a. 0 \<le> half a \<and> half a \<le> 1" by (simp add: half_def)
  have h2: "0 \<le> retry_base_delay ScraperConfig_default" by (simp add: ScraperConfig_default_def)
  have h3: "Backoff 1 (21 / 20) \<in> set (trace (scrape_with_retry ScraperConfig_default always_timeout half half ''09DPR0001A''))"
    by (simp add: retry_eval)
  have h4: "Backoff 2 (21 / 10) \<in> set (trace (scrape_with_retry ScraperConfig_default always_timeout half half ''09DPR0001A''))"
    by (simp add: retry_eval)
  have h5: "retry_base_delay ScraperConfig_default * 2 ^ nat (2 - 1) \<le> retry_max_delay ScraperConfig_default"
    by (simp add: ScraperConfig_default_def)
  from backoff_monotone_below_cap[OF h1 h2 h3 h4] h5 have "(21 / 20 :: real) \<le> 21 / 10" by simp
  with h1 h2 h3 h4 h5 show ?thesis by blast
qed

theorem scrape_with_retry_backoff_schedule_witness:
  "(\<forall>a. 0 \<le> half a \<and> half a \<le> 1) \<and>
   attempts (result (scrape_with_retry ScraperConfig_default always_timeout half half ''09DPR0001A'')) = 3 \<and>
   trace (scrape_with_retry ScraperConfig_default always_timeout half half ''09DPR0001A'') =
     [RequestJitter 1 (3 / 10), Request 1 ''09DPR0001A'', Backoff 1 (21 / 20),
      RequestJitter 2 (3 / 10), Request 2 ''09DPR0001A'', Backoff 2 (21 / 10),
      RequestJitter 3 (3 / 10), Request 3 ''09DPR0001A'']"
proof -
  have h: "\<forall>a. 0 \<le> half a \<and> half a \<le> 1" by (simp add: half_def)
  have k: "attempts (result (scrape_with_retry ScraperConfig_default always_timeout half half ''09DPR0001A'')) = 3"
    by (simp add: retry_eval)
  show ?thesis
    using scrape_with_retry_backoff_schedule[OF h, of ScraperConfig_default always_timeout half "''09DPR0001A''"] h
    unfolding Let_def k by (simp add: retry_eval)
qed

theorem scrape_with_retry_retries_every_failure_witness:
  "attempts (result (scrape_with_retry ScraperConfig_default flaky half half ''09DPR0001A'')) = 3 \<and>
   succeeded (flaky 3) \<and> \<not> succeeded (flaky 1) \<and> \<not> succeeded (flaky 2) \<and>
   filter (\<lambda>e. case e of Request _ _ \<Rightarrow> True | _ \<Rightarrow> False)
     (trace (scrape_with_retry ScraperConfig_default flaky half half ''09DPR0001A'')) =
     [Request 1 ''09DPR0001A'', Request 2 ''09DPR0001A'', Request 3 ''09DPR0001A''] \<and>
   school_data (result (scrape_with_retry ScraperConfig_default flaky half half ''09DPR0001A'')) =
     Some found_record \<and>
   last_error (result (scrape_with_retry ScraperConfig_default flaky half half ''09DPR0001A'')) =
     Some ''connection reset''"
proof -
  have k: "attempts (result (scrape_with_retry ScraperConfig_default flaky half half ''09DPR0001A'')) = 3"
    by (simp add: retry_eval)
  show ?thesis
    using scrape_with_retry_retries_every_failure[of ScraperConfig_default flaky half half "''09DPR0001A''"]
    unfolding Let_def k by (simp add: retry_eval)
qed

section \<open>Properties of merging\<close>

lemma merge_line_map_of:
  "map_of (merge_line line d) =
     (case merge_entry line of None \<Rightarrow> map_of d | Some (k, v) \<Rightarrow> (map_of d)(k \<mapsto> v))"
  by (simp add: merge_line_def update_conv' split: option.splits)

lemma merge_line_distinct:
  "distinct (map fst d) \<Longrightarrow> distinct (map fst (merge_line line d))"
  by (simp add: merge_line_def distinct_update split: option.splits)

lemma fold_merge_line_map_of:
  "map_of (fold merge_line ls d) = map_of (rev (List.map_filter merge_entry ls) @ d)"
proof (induction ls arbitrary: d)
  case Nil
  then show ?case by (simp add: List.map_filter_simps)
next
  case (Cons l ls)
  have "map_of (fold merge_line (l # ls) d) = map_of (merge_line l d) ++ map_of (rev (List.map_filter merge_entry ls))"
    by (simp add: Cons.IH)
  also have "\<dots> = map_of (rev (List.map_filter merge_entry (l # ls)) @ d)"
    by (cases "merge_entry l") (auto simp add: merge_line_map_of List.map_filter_simps)
  finally show ?case .
qed

lemma fold_merge_line_distinct:
  "distinct (map fst d) \<Longrightarrow> distinct (map fst (fold merge_line ls d))"
  by (induction ls arbitrary: d) (simp_all add: merge_line_distinct)

lemma merge_file_map_of:
  "map_of (merge_file files path d) =
     map_of (rev (case files path of None \<Rightarrow> []
                  | Some content \<Rightarrow> List.map_filter merge_entry (readlines content)) @ d)"
  by (simp add: merge_file_def fold_merge_line_map_of split: option.splits)

lemma merge_file_distinct:
  "distinct (map fst d) \<Longrightarrow> distinct (map fst (merge_file files path d))"
  by (simp add: merge_file_def fold_merge_line_distinct split: option.splits)

lemma fold_merge_file_map_of:
  "map_of (fold (merge_file files) paths d) = map_of (rev (merge_entries paths files) @ d)"
proof (induction paths arbitrary: d)
  case Nil
  then show ?case by (simp add: merge_entries_def)
next
  case (Cons p ps)
  have "map_of (fold (merge_file files) (p # ps) d) =
        map_of (rev (merge_entries ps files) @ merge_file files p d)"
    by (simp add: Cons.IH)
  also have "\<dots> = map_of (merge_file files p d) ++ map_of (rev (merge_entries ps files))"
    by simp
  also have "\<dots> = map_of (rev (merge_entries (p # ps) files) @ d)"
    by (simp add: merge_file_map_of merge_entries_def)
  finally show ?case .
qed

lemma fold_merge_file_distinct:
  "distinct (map fst d) \<Longrightarrow> distinct (map fst (fold (merge_file files) paths d))"
  by (induction paths arbitrary: d) (simp_all add: merge_file_distinct)

lemma map_of_rev_last_occurrence:
  "map_of (rev es) k = Some v \<longleftrightarrow>
     (\<exists>pre post. es = pre @ (k, v) # post \<and> k \<notin> fst ` set post)"
proof (induction es rule: rev_induct)
  case Nil
  then show ?case by simp
next
  case (snoc e es)
  show ?case
  proof (cases "fst e = k")
    case True
    have "map_of (rev (es @ [e])) k = Some (snd e)"
      using True by (cases e) simp
    moreover have "(\<exists>pre post. es @ [e] = pre @ (k, v) # post \<and> k \<notin> fst ` set post) \<longleftrightarrow> v = snd e"
    proof
      assume "\<exists>pre post. es @ [e] = pre @ (k, v) # post \<and> k \<notin> fst ` set post"
      then obtain pre post where eq: "es @ [e] = pre @ (k, v) # post" and nin: "k \<notin> fst ` set post"
        by blast
      show "v = snd e"
      proof (cases post rule: rev_cases)
        case Nil
        with eq show ?thesis by auto
      next
        case (snoc post' x)
        with eq have "x = e" by (metis append_Cons append_assoc last_snoc)
        with snoc nin True show ?thesis by auto
      qed
    next
      assume "v = snd e"
      then have "es @ [e] = es @ (k, v) # []" using True by (cases e) simp
      then show "\<exists>pre post. es @ [e] = pre @ (k, v) # post \<and> k \<notin> fst ` set post"
        by (metis empty_iff image_empty list.set(1))
    qed
    ultimately show ?thesis by auto
  next
    case False
    have "map_of (rev (es @ [e])) k = map_of (rev es) k"
      using False by (cases e) simp
    moreover have "(\<exists>pre post. es @ [e] = pre @ (k, v) # post \<and> k \<notin> fst ` set post) \<longleftrightarrow>
                   (\<exists>pre post. es = pre @ (k, v) # post \<and> k \<notin> fst ` set post)"
    proof
      assume "\<exists>pre post. es @ [e] = pre @ (k, v) # post \<and> k \<notin> fst ` set post"
      then obtain pre post where eq: "es @ [e] = pre @ (k, v) # post" and nin: "k \<notin> fst ` set post"
        by blast
      show "\<exists>pre post. es = pre @ (k, v) # post \<and> k \<notin> fst ` set post"
      proof (cases post rule: rev_cases)
        case Nil
        with eq False show ?thesis by auto
      next
        case (snoc post' x)
        with eq have "es = pre @ (k, v) # post'" by (metis append_Cons append_assoc butlast_snoc)
        with snoc nin show ?thesis by auto
      qed
    next
      assume "\<exists>pre post. es = pre @ (k, v) # post \<and> k \<notin> fst ` set post"
      then obtain pre post where "es = pre @ (k, v) # post" "k \<notin> fst ` set post" by blast
      then have "es @ [e] = pre @ (k, v) # (post @ [e]) \<and> k \<notin> fst ` set (post @ [e])"
        using False by auto
      then show "\<exists>pre post. es @ [e] = pre @ (k, v) # post \<and> k \<notin> fst ` set post"
        by blast
    qed
    ultimately show ?thesis using snoc.IH by simp
  qed
qed

text \<open>
  Claim C2, amended. The output file holds one line \<open>code-rest\<close> for each item of the
  dictionary, sorted; no code occurs in two items; and an item is in the output exactly when
  it is the last entry with its code among the entries of the input files, read in file
  order and then line order. The number returned is the number of items.
\<close>

theorem merge_results_keeps_last:
  "let (files', n) = merge_results result_files output_path files;
       items = sort (fold (merge_file files) result_files [])
   in files' output_path = Some (concat (map merged_line items)) \<and>
      n = length items \<and>
      distinct (map fst items) \<and> sorted items \<and>
      (\<forall>k v. (k, v) \<in> set items \<longleftrightarrow>
         (\<exists>pre post. merge_entries result_files files = pre @ (k, v) # post \<and>
                      k \<notin> fst ` set post))"
proof -
  let ?d = "fold (merge_file files) result_files []"
  have dist: "distinct (map fst ?d)"
    by (rule fold_merge_file_distinct) simp
  have dist': "distinct (map fst (sort ?d))"
    using dist by (simp add: distinct_map)
  have mem: "\<forall>k v. (k, v) \<in> set (sort ?d) \<longleftrightarrow>
         (\<exists>pre post. merge_entries result_files files = pre @ (k, v) # post \<and>
                      k \<notin> fst ` set post)"
  proof (intro allI)
    fix k v
    have "(k, v) \<in> set (sort ?d) \<longleftrightarrow> map_of ?d k = Some v"
      using dist by simp
    also have "\<dots> \<longleftrightarrow> map_of (rev (merge_entries result_files files)) k = Some v"
      by (simp add: fold_merge_file_map_of)
    finally show "(k, v) \<in> set (sort ?d) \<longleftrightarrow>
         (\<exists>pre post. merge_entries result_files files = pre @ (k, v) # post \<and>
                      k \<notin> fst ` set post)"
      by (simp only: map_of_rev_last_occurrence)
  qed
  show ?thesis
    unfolding Let_def merge_results_def write_file_def
    using dist' mem by simp
qed

text \<open>
  Claim C2 as stated fails: when a code occurs on two lines, the later line overwrites the
  earlier one in the dictionary, so the value written is that of the last occurrence.
\<close>

theorem merge_results_not_first_occurrence:
  "merge_entries [''results_a.txt''] dup_files =
     [(''09DPR0001A'', ''19.1,-99.1-first''), (''09DPR0001A'', ''19.2,-99.2-second'')] \<and>
   fst (merge_results [''results_a.txt''] ''merged_results.txt'' dup_files) ''merged_results.txt'' =
     Some ''09DPR0001A-19.2,-99.2-second\<newline>''"
  by code_simp

theorem merge_results_keeps_last_witness:
  "merge_entries [''results_a.txt'', ''results_b.txt''] two_files =
     [(''09DPR0002B'', ''19.1,-99.1-a''), (''09DPR0001A'', ''19.2,-99.2-b''),
      (''09DPR0001A'', ''19.3,-99.3-c'')] \<and>
   fst (merge_results [''results_a.txt'', ''results_b.txt''] ''merged_results.txt'' two_files)
     ''merged_results.txt'' =
     Some ''09DPR0001A-19.3,-99.3-c\<newline>09DPR0002B-19.1,-99.1-a\<newline>'' \<and>
   (''09DPR0001A'', ''19.3,-99.3-c'') \<in>
     set (sort (fold (merge_file two_files) [''results_a.txt'', ''results_b.txt''] []))"
proof -
  have e: "merge_entries [''results_a.txt'', ''results_b.txt''] two_files =
     [(''09DPR0002B'', ''19.1,-99.1-a''), (''09DPR0001A'', ''19.2,-99.2-b''),
      (''09DPR0001A'', ''19.3,-99.3-c'')]"
    by code_simp
  have o: "fst (merge_results [''results_a.txt'', ''results_b.txt''] ''merged_results.txt'' two_files)
     ''merged_results.txt'' =
     Some ''09DPR0001A-19.3,-99.3-c\<newline>09DPR0002B-19.1,-99.1-a\<newline>''"
    by code_simp
  from merge_results_keeps_last[of "[''results_a.txt'', ''results_b.txt'']" "''merged_results.txt''" two_files]
  have iff: "\<forall>k v. (k, v) \<in> set (sort (fold (merge_file two_files) [''results_a.txt'', ''results_b.txt''] [])) \<longleftrightarrow>
         (\<exists>pre post. merge_entries [''results_a.txt'', ''results_b.txt''] two_files = pre @ (k, v) # post \<and>
                      k \<notin> fst ` set post)"
    by (simp add: Let_def split_def)
  have "\<exists>pre post. merge_entries [''results_a.txt'', ''results_b.txt''] two_files =
          pre @ (''09DPR0001A'', ''19.3,-99.3-c'') # post \<and> ''09DPR0001A'' \<notin> fst ` set post"
    unfolding e
    by (rule exI[of _ "[(''09DPR0002B'', ''19.1,-99.1-a''), (''09DPR0001A'', ''19.2,-99.2-b'')]"],
        rule exI[of _ "[]"]) simp
  with iff have "(''09DPR0001A'', ''19.3,-99.3-c'') \<in>
     set (sort (fold (merge_file two_files) [''results_a.txt'', ''results_b.txt''] []))"
    by blast
  with e o show ?thesis by blast
qed

section \<open>Properties of the batch job\<close>

lemma save_result_snd: "snd (save_result_incrementally res config files) = has_coordinates res"
  by (auto simp add: save_result_incrementally_def has_coordinates_def Let_def split: option.splits)

lemma save_result_unsaved:
  "\<not> has_coordinates res \<Longrightarrow> save_result_incrementally res config files = (files, False)"
  by (auto simp add: save_result_incrementally_def has_coordinates_def Let_def split: option.splits)

lemma save_result_other_file:
  "path \<noteq> output_file config \<Longrightarrow> path \<noteq> progress_file config \<Longrightarrow>
   fst (save_result_incrementally res config files) path = files path"
  by (auto simp add: save_result_incrementally_def append_file_def Let_def split: option.splits)

lemma file_text_append:
  "file_text (append_file path s files) q = (if q = path then file_text files path @ s else file_text files q)"
  by (simp add: file_text_def append_file_def split: option.splits)

lemma process_results_Cons:
  "process_results config clock (r # rs) st =
     process_results config clock rs (after_item config clock r st)"
proof (cases r)
  case (TaskException e)
  then show ?thesis by (simp add: after_item_def)
next
  case (TaskResult res)
  show ?thesis
  proof (cases "has_coordinates res")
    case True
    obtain f b where sv: "save_result_incrementally res config (disk st) = (f, b)"
      by (cases "save_result_incrementally res config (disk st)")
    with True save_result_snd[of res config "disk st"] have "b" by simp
    with sv TaskResult True show ?thesis by (simp add: after_item_def)
  next
    case False
    from save_result_unsaved[OF False, of config "disk st"] TaskResult False show ?thesis
      by (simp add: after_item_def)
  qed
qed

lemma after_item_simps:
  "job_trace (after_item config clock r st) = job_trace st"
  "total_processed (after_item config clock r st) = total_processed st + 1"
  "successful_count (after_item config clock r st) + failed_count (after_item config clock r st) =
     successful_count st + failed_count st + 1"
  "failed_count (after_item config clock r st) = failed_count st + (if is_failure r then 1 else 0)"
  by (cases r; simp add: after_item_def is_failure_def)+

lemma after_item_failure_log:
  assumes "failed_codes_file config \<noteq> output_file config"
    and "failed_codes_file config \<noteq> progress_file config"
  shows "file_text (disk (after_item config clock r st)) (failed_codes_file config) =
         file_text (disk st) (failed_codes_file config) @
         failure_entry config clock (total_processed st + 1, r)"
proof (cases r)
  case (TaskException e)
  then show ?thesis by (simp add: after_item_def failure_entry_def)
next
  case (TaskResult res)
  show ?thesis
  proof (cases "has_coordinates res")
    case True
    with TaskResult show ?thesis
      using save_result_other_file[OF assms, of res "disk st"]
      by (simp add: after_item_def failure_entry_def file_text_def)
  next
    case False
    with TaskResult show ?thesis
      by (simp add: after_item_def failure_entry_def save_failed_code_def file_text_append)
  qed
qed

lemma after_item_exceptions:
  "List.map_filter (\<lambda>m. case m of LogException e \<Rightarrow> Some e | _ \<Rightarrow> None) (messages (after_item config clock r st)) =
   List.map_filter (\<lambda>m. case m of LogException e \<Rightarrow> Some e | _ \<Rightarrow> None) (messages st) @
   (case r of TaskException e \<Rightarrow> [e] | _ \<Rightarrow> [])"
  by (cases r) (simp_all add: after_item_def List.map_filter_def)

lemma process_results_job_trace:
  "job_trace (process_results config clock rs st) = job_trace st"
  by (induction rs arbitrary: st) (simp_all add: process_results_Cons after_item_simps del: process_results.simps(2))

lemma process_results_total:
  "total_processed (process_results config clock rs st) = total_processed st + length rs"
  by (induction rs arbitrary: st) (simp_all add: process_results_Cons after_item_simps del: process_results.simps(2))

lemma process_results_counts:
  "successful_count (process_results config clock rs st) + failed_count (process_results config clock rs st) =
     successful_count st + failed_count st + length rs"
  by (induction rs arbitrary: st) (simp_all add: process_results_Cons after_item_simps(3) del: process_results.simps(2))

lemma process_results_failed:
  "failed_count (process_results config clock rs st) = failed_count st + length (filter is_failure rs)"
  by (induction rs arbitrary: st) (simp_all add: process_results_Cons after_item_simps del: process_results.simps(2))

lemma process_results_failure_log:
  assumes "failed_codes_file config \<noteq> output_file config"
    and "failed_codes_file config \<noteq> progress_file config"
  shows "file_text (disk (process_results config clock rs st)) (failed_codes_file config) =
         file_text (disk st) (failed_codes_file config) @
         concat (map (failure_entry config clock) (enumerate (total_processed st + 1) rs))"
  by (induction rs arbitrary: st)
     (simp_all add: process_results_Cons after_item_simps after_item_failure_log[OF assms]
        del: process_results.simps(2))

lemma process_results_exceptions:
  "List.map_filter (\<lambda>m. case m of LogException e \<Rightarrow> Some e | _ \<Rightarrow> None) (messages (process_results config clock rs st)) =
   List.map_filter (\<lambda>m. case m of LogException e \<Rightarrow> Some e | _ \<Rightarrow> None) (messages st) @
   List.map_filter (\<lambda>r. case r of TaskException e \<Rightarrow> Some e | _ \<Rightarrow> None) rs"
proof (induction rs arbitrary: st)
  case Nil
  then show ?case by (simp add: List.map_filter_simps)
next
  case (Cons r rs)
  show ?case
    by (cases r)
       (simp_all add: process_results_Cons Cons.IH after_item_exceptions List.map_filter_simps
          del: process_results.simps(2))
qed

lemma process_batches_Cons:
  "process_batches config run_task pause_draw clock total_batches (item # rest) st =
     process_batches config run_task pause_draw clock total_batches rest
       (after_batch config run_task pause_draw clock total_batches item st)"
  by (cases item) (simp add: after_batch_def Let_def)

lemma after_batch_job_trace:
  "job_trace (after_batch config run_task pause_draw clock total_batches item st) =
     job_trace st @ batch_events config pause_draw total_batches item"
  by (simp add: after_batch_def batch_events_def Let_def process_results_job_trace)

lemma after_batch_total:
  "total_processed (after_batch config run_task pause_draw clock total_batches item st) =
     total_processed st + length (snd item)"
  by (simp add: after_batch_def Let_def process_results_total)

lemma after_batch_counts:
  "successful_count (after_batch config run_task pause_draw clock total_batches item st) +
   failed_count (after_batch config run_task pause_draw clock total_batches item st) =
     successful_count st + failed_count st + length (snd item)"
  using process_results_counts[of config clock "map run_task (snd item)"
          "st\<lparr> job_trace := job_trace st @ [Submit (snd item)] \<rparr>"]
  by (simp add: after_batch_def Let_def)

lemma after_batch_failed:
  "failed_count (after_batch config run_task pause_draw clock total_batches item st) =
     failed_count st + length (filter is_failure (map run_task (snd item)))"
  by (simp add: after_batch_def Let_def process_results_failed)

lemma after_batch_failure_log:
  assumes "failed_codes_file config \<noteq> output_file config"
    and "failed_codes_file config \<noteq> progress_file config"
  shows "file_text (disk (after_batch config run_task pause_draw clock total_batches item st))
           (failed_codes_file config) =
         file_text (disk st) (failed_codes_file config) @
         concat (map (failure_entry config clock)
                   (enumerate (total_processed st + 1) (map run_task (snd item))))"
  by (simp add: after_batch_def Let_def process_results_failure_log[OF assms])

lemma after_batch_exceptions:
  "List.map_filter (\<lambda>m. case m of LogException e \<Rightarrow> Some e | _ \<Rightarrow> None)
     (messages (after_batch config run_task pause_draw clock total_batches item st)) =
   List.map_filter (\<lambda>m. case m of LogException e \<Rightarrow> Some e | _ \<Rightarrow> None) (messages st) @
   List.map_filter (\<lambda>r. case r of TaskException e \<Rightarrow> Some e | _ \<Rightarrow> None) (map run_task (snd item))"
  by (simp add: after_batch_def Let_def process_results_exceptions)

lemma process_batches_job_trace:
  "job_trace (process_batches config run_task pause_draw clock total_batches batches st) =
     job_trace st @ concat (map (batch_events config pause_draw total_batches) batches)"
  by (induction batches arbitrary: st)
     (simp_all add: process_batches_Cons after_batch_job_trace del: process_batches.simps(2))

lemma process_batches_total:
  "total_processed (process_batches config run_task pause_draw clock total_batches batches st) =
     total_processed st + length (concat (map snd batches))"
  by (induction batches arbitrary: st)
     (simp_all add: process_batches_Cons after_batch_total del: process_batches.simps(2))

lemma process_batches_counts:
  "successful_count (process_batches config run_task pause_draw clock total_batches batches st) +
   failed_count (process_batches config run_task pause_draw clock total_batches batches st) =
     successful_count st + failed_count st + length (concat (map snd batches))"
  by (induction batches arbitrary: st)
     (simp_all add: process_batches_Cons after_batch_counts del: process_batches.simps(2))

lemma process_batches_failed:
  "failed_count (process_batches config run_task pause_draw clock total_batches batches st) =
     failed_count st + length (filter is_failure (map run_task (concat (map snd batches))))"
  by (induction batches arbitrary: st)
     (simp_all add: process_batches_Cons after_batch_failed del: process_batches.simps(2))

lemma enumerate_append:
  "enumerate n (xs @ ys) = enumerate n xs @ enumerate (n + length xs) ys"
  by (induction xs arbitrary: n) simp_all

lemma process_batches_failure_log:
  assumes "failed_codes_file config \<noteq> output_file config"
    and "failed_codes_file config \<noteq> progress_file config"
  shows "file_text (disk (process_batches config run_task pause_draw clock total_batches batches st))
           (failed_codes_file config) =
         file_text (disk st) (failed_codes_file config) @
         concat (map (failure_entry config clock)
                   (enumerate (total_processed st + 1) (map run_task (concat (map snd batches)))))"
  by (induction batches arbitrary: st)
     (simp_all add: process_batches_Cons after_batch_failure_log[OF assms] after_batch_total
        enumerate_append del: process_batches.simps(2))

lemma map_filter_append:
  "List.map_filter f (xs @ ys) = List.map_filter f xs @ List.map_filter f ys"
  by (simp add: List.map_filter_def)

lemma process_batches_exceptions:
  "List.map_filter (\<lambda>m. case m of LogException e \<Rightarrow> Some e | _ \<Rightarrow> None)
     (messages (process_batches config run_task pause_draw clock total_batches batches st)) =
   List.map_filter (\<lambda>m. case m of LogException e \<Rightarrow> Some e | _ \<Rightarrow> None) (messages st) @
   List.map_filter (\<lambda>r. case r of TaskException e \<Rightarrow> Some e | _ \<Rightarrow> None)
     (map run_task (concat (map snd batches)))"
  by (induction batches arbitrary: st)
     (simp_all add: process_batches_Cons after_batch_exceptions map_filter_append
        List.map_filter_simps del: process_batches.simps(2))

lemma submitted_append: "submitted (es @ fs) = submitted es @ submitted fs"
  by (induction es rule: submitted.induct) simp_all

lemma pauses_append: "pauses (es @ fs) = pauses es @ pauses fs"
  by (induction es rule: pauses.induct) simp_all

lemma submitted_batch_events:
  "submitted (concat (map (batch_events config pause_draw total_batches) batches)) = map snd batches"
  by (induction batches) (simp_all add: batch_events_def submitted_append)

lemma range_step_unfold:
  "0 < step \<Longrightarrow> i < stop \<Longrightarrow> range_step i stop step = i # range_step (i + step) stop step"
  "\<not> i < stop \<Longrightarrow> range_step i stop step = []"
  by simp_all

declare range_step.simps [simp del]

lemma range_step_bounds:
  "k \<in> set (range_step i stop step) \<Longrightarrow> i \<le> k \<and> k < stop"
proof (induction i stop step rule: range_step.induct)
  case (1 i stop step)
  show ?case
  proof (cases "0 < step \<and> i < stop")
    case True
    with "1.prems" have "k = i \<or> k \<in> set (range_step (i + step) stop step)"
      by (simp add: range_step_unfold)
    then show ?thesis
      using "1.IH"[OF True] True by auto
  next
    case False
    with "1.prems" show ?thesis by (simp add: range_step.simps[of i stop step])
  qed
qed

lemma concat_batches:
  "0 < step \<Longrightarrow> 0 \<le> i \<Longrightarrow>
   concat (map (\<lambda>i. take (nat step) (drop (nat i) xs)) (range_step i (int (length xs)) step)) =
     drop (nat i) xs"
proof (induction i "int (length xs)" step rule: range_step.induct)
  case (1 i step)
  show ?case
  proof (cases "i < int (length xs)")
    case True
    have "nat (i + step) = nat step + nat i"
      using "1.prems" by (simp add: nat_add_distrib)
    then have "drop (nat (i + step)) xs = drop (nat step) (drop (nat i) xs)"
      by (simp only: drop_drop)
    then have glue: "take (nat step) (drop (nat i) xs) @ drop (nat (i + step)) xs = drop (nat i) xs"
      by (simp only: append_take_drop_id)
    have "concat (map (\<lambda>i. take (nat step) (drop (nat i) xs)) (range_step i (int (length xs)) step)) =
          take (nat step) (drop (nat i) xs) @
          concat (map (\<lambda>i. take (nat step) (drop (nat i) xs)) (range_step (i + step) (int (length xs)) step))"
      using "1.prems" True by (simp add: range_step_unfold)
    also have "\<dots> = take (nat step) (drop (nat i) xs) @ drop (nat (i + step)) xs"
      using "1.hyps" "1.prems" True by simp
    finally show ?thesis using glue by simp
  next
    case False
    then show ?thesis by (simp add: range_step_unfold)
  qed
qed

lemma length_range_step:
  "0 < step \<Longrightarrow> i \<le> stop \<Longrightarrow> int (length (range_step i stop step)) = (stop - i + step - 1) div step"
proof (induction i stop step rule: range_step.induct)
  case (1 i stop step)
  show ?case
  proof (cases "i < stop")
    case True
    show ?thesis
    proof (cases "i + step \<le> stop")
      case le: True
      have "(stop - i + step - 1) div step = (stop - (i + step) + step - 1 + step) div step"
        by (simp add: algebra_simps)
      also have "\<dots> = (stop - (i + step) + step - 1) div step + 1"
        using "1.prems"(1) by simp
      finally show ?thesis
        using "1.IH" "1.prems"(1) True le by (simp add: range_step_unfold)
    next
      case gt: False
      then have "range_step (i + step) stop step = []" by (simp add: range_step_unfold)
      moreover have "(stop - i + step - 1) div step = 1"
      proof -
        have "(stop - i + step - 1) div step = ((stop - i - 1) + step) div step"
          by (simp add: algebra_simps)
        also have "\<dots> = (stop - i - 1) div step + 1"
          using "1.prems"(1) by simp
        also have "(stop - i - 1) div step = 0"
          using True gt by (intro div_pos_pos_trivial) simp_all
        finally show ?thesis by simp
      qed
      ultimately show ?thesis using True "1.prems"(1) by (simp add: range_step_unfold)
    qed
  next
    case False
    with "1.prems" have "i = stop" by simp
    then show ?thesis using "1.prems"(1) by (simp add: range_step_unfold)
  qed
qed

lemma concat_batches_of: "0 < batch_size \<Longrightarrow> concat (batches_of batch_size xs) = xs"
  using concat_batches[of batch_size 0 xs] by (simp add: batches_of_def)

lemma length_batches_of:
  "0 < batch_size \<Longrightarrow>
   int (length (batches_of batch_size xs)) = (int (length xs) + batch_size - 1) div batch_size"
  using length_range_step[of batch_size 0 "int (length xs)"] by (simp add: batches_of_def)

lemma batches_of_sizes:
  assumes "0 < batch_size" and "b \<in> set (batches_of batch_size xs)"
  shows "1 \<le> length b \<and> int (length b) \<le> batch_size"
proof -
  from assms(2) obtain k where k: "k \<in> set (range_step 0 (int (length xs)) batch_size)"
    and b: "b = take (nat batch_size) (drop (nat k) xs)"
    by (auto simp: batches_of_def)
  from range_step_bounds[OF k] have "0 \<le> k" "k < int (length xs)" by simp_all
  then have "nat k < length xs" by simp
  then show ?thesis using assms(1) b by auto
qed

lemma butlast_range_step:
  "k \<in> set (butlast (range_step i stop step)) \<Longrightarrow> i \<le> k \<and> k + step < stop"
proof (induction i stop step rule: range_step.induct)
  case (1 i stop step)
  show ?case
  proof (cases "0 < step \<and> i < stop")
    case True
    then have unf: "range_step i stop step = i # range_step (i + step) stop step"
      by (simp add: range_step_unfold)
    show ?thesis
    proof (cases "range_step (i + step) stop step = []")
      case True
      with "1.prems" unf show ?thesis by simp
    next
      case False
      then have "i + step < stop"
        by (metis range_step_unfold(2))
      moreover from "1.prems" unf False
      have "k = i \<or> k \<in> set (butlast (range_step (i + step) stop step))" by simp
      ultimately show ?thesis
        using "1.IH"[OF True] True by auto
    qed
  next
    case False
    then have "range_step i stop step = []" by (simp add: range_step.simps[of i stop step])
    with "1.prems" show ?thesis by simp
  qed
qed

lemma batches_of_full:
  assumes "0 < batch_size" and "b \<in> set (butlast (batches_of batch_size xs))"
  shows "int (length b) = batch_size"
proof -
  from assms(2) obtain k where k: "k \<in> set (butlast (range_step 0 (int (length xs)) batch_size))"
    and b: "b = take (nat batch_size) (drop (nat k) xs)"
    by (auto simp: batches_of_def map_butlast[symmetric])
  from butlast_range_step[OF k] have "0 \<le> k" "k + batch_size < int (length xs)" by simp_all
  then have "nat batch_size \<le> length xs - nat k" using assms(1) by linarith
  then show ?thesis using assms(1) b by simp
qed

lemma run_job_state:
  assumes "files0 ''clave_ct_list_federal_primaria.txt'' = Some content"
    and "0 < max_concurrent_requests config"
  shows "snd (run_job config run_task pause_draw clock files0) =
     process_batches config run_task pause_draw clock
       (int (length (batches_of (max_concurrent_requests config)
                       (pending_codes content (progress_file config) files0))))
       (enumerate 1 (batches_of (max_concurrent_requests config)
                       (pending_codes content (progress_file config) files0)))
       \<lparr> disk = files0, successful_count = 0, failed_count = 0, total_processed = 0,
         job_trace = [], messages = [] \<rparr>"
proof -
  let ?pending = "pending_codes content (progress_file config) files0"
  have empty: "batches_of (max_concurrent_requests config) [] = []"
    by (simp add: batches_of_def range_step_unfold)
  show ?thesis
  proof (cases "?pending = []")
    case True
    then show ?thesis
      using assms by (simp add: run_job_def Let_def empty)
  next
    case False
    have "filter (\<lambda>line. line \<noteq> []) (map strip (readlines content)) = [] \<Longrightarrow> ?pending = []"
      unfolding pending_codes_def Let_def by (simp only: filter.simps)
    with False have "filter (\<lambda>line. line \<noteq> []) (map strip (readlines content)) \<noteq> []"
      by blast
    then show ?thesis
      using assms False by (simp add: run_job_def Let_def length_batches_of)
  qed
qed

lemma map_snd_enumerate': "map snd (enumerate n xs) = xs"
  by (simp add: enumerate_eq_zip)

lemma fold_insert_map_filter:
  "fold (\<lambda>x S. case f x of None \<Rightarrow> S | Some c \<Rightarrow> insert c S) xs S0 =
     S0 \<union> set (List.map_filter f xs)"
proof (induction xs arbitrary: S0)
  case Nil
  then show ?case by (simp add: List.map_filter_simps)
next
  case (Cons x xs)
  then show ?case by (cases "f x") (auto simp: List.map_filter_simps)
qed

lemma set_map_filter: "set (List.map_filter f xs) = {y. \<exists>x\<in>set xs. f x = Some y}"
  by (induction xs) (auto simp: List.map_filter_simps split: option.splits)

lemma split_on_first:
  "(case split_on c s of p # _ \<Rightarrow> p | [] \<Rightarrow> []) = takeWhile (\<lambda>x. x \<noteq> c) s"
  by (induction s) (auto split: list.splits)

lemma progress_code_iff:
  "progress_code line = Some c \<longleftrightarrow>
     strip line \<noteq> [] \<and> c = strip (takeWhile (\<lambda>x. x \<noteq> CHR ''-'') line)"
  by (auto simp: progress_code_def split_on_first)

lemma load_progress_iff:
  "c \<in> load_progress path files \<longleftrightarrow>
     (\<exists>content line. files path = Some content \<and> line \<in> set (readlines content) \<and>
        strip line \<noteq> [] \<and> c = strip (takeWhile (\<lambda>x. x \<noteq> CHR ''-'') line))"
proof (cases "files path")
  case None
  then show ?thesis by (simp add: load_progress_def)
next
  case (Some content)
  have "c \<in> load_progress path files \<longleftrightarrow>
        (\<exists>line\<in>set (readlines content). progress_code line = Some c)"
    using Some by (simp add: load_progress_def fold_insert_map_filter set_map_filter)
  then show ?thesis
    using Some by (auto simp: progress_code_iff)
qed

lemma run_job_submitted:
  assumes "files0 ''clave_ct_list_federal_primaria.txt'' = Some content"
    and "0 < max_concurrent_requests config"
  shows "submitted (job_trace (snd (run_job config run_task pause_draw clock files0))) =
           batches_of (max_concurrent_requests config)
             (pending_codes content (progress_file config) files0)"
  by (simp add: run_job_state[where ?files0.0 = files0, OF assms] process_batches_job_trace submitted_batch_events
        map_snd_enumerate')

text \<open>
  Claim C3. The codes submitted to the scraper by the main job, batch after batch, are the
  codes of the input list that are not in the progress set, in the order of the input; no
  code of the progress set is submitted; and the progress set holds exactly the texts before
  the first \<^verbatim>\<open>-\<close>, stripped, of the lines of the progress file that are not blank.
\<close>

theorem processed_codes_skipped_on_rerun:
  assumes "files0 ''clave_ct_list_federal_primaria.txt'' = Some content"
  shows
    "let st = snd (read_ct_codes_from_file run_task pause_draw clock files0);
         processed = load_progress (progress_file ScraperConfig_default) files0;
         all_ct_codes = filter (\<lambda>line. line \<noteq> []) (map strip (readlines content))
     in concat (submitted (job_trace st)) = filter (\<lambda>code. code \<notin> processed) all_ct_codes \<and>
        (\<forall>code\<in>processed. code \<notin> set (concat (submitted (job_trace st)))) \<and>
        (\<forall>code. code \<in> processed \<longleftrightarrow>
           (\<exists>progress line.
              files0 (progress_file ScraperConfig_default) = Some progress \<and>
              line \<in> set (readlines progress) \<and> strip line \<noteq> [] \<and>
              code = strip (takeWhile (\<lambda>x. x \<noteq> CHR ''-'') line)))"
proof -
  have bs: "0 < max_concurrent_requests ScraperConfig_default"
    by (simp add: ScraperConfig_default_def)
  let ?st = "snd (read_ct_codes_from_file run_task pause_draw clock files0)"
  let ?processed = "load_progress (progress_file ScraperConfig_default) files0"
  let ?all = "filter (\<lambda>line. line \<noteq> []) (map strip (readlines content))"
  have sub: "concat (submitted (job_trace ?st)) = filter (\<lambda>code. code \<notin> ?processed) ?all"
    unfolding read_ct_codes_from_file_def
    by (simp add: run_job_submitted[where ?files0.0 = files0, OF assms bs] concat_batches_of[OF bs] pending_codes_def Let_def)
  then have skip: "\<forall>code\<in>?processed. code \<notin> set (concat (submitted (job_trace ?st)))"
    by simp
  have iff: "\<forall>code. code \<in> ?processed \<longleftrightarrow>
           (\<exists>progress line.
              files0 (progress_file ScraperConfig_default) = Some progress \<and>
              line \<in> set (readlines progress) \<and> strip line \<noteq> [] \<and>
              code = strip (takeWhile (\<lambda>x. x \<noteq> CHR ''-'') line))"
    by (simp only: load_progress_iff) simp
  show ?thesis
    unfolding Let_def using sub skip iff by (intro conjI)
qed

lemma pauses_batch_events:
  "d \<in> set (pauses (concat (map (batch_events config pause_draw total_batches) batches))) \<Longrightarrow>
   \<exists>k. d = uniform (batch_delay_min config) (batch_delay_max config) (pause_draw k)"
  by (induction batches) (auto simp: batch_events_def pauses_append split: if_splits)

lemma uniform_between:
  assumes "a \<le> b" and "0 \<le> u" and "u \<le> 1"
  shows "a \<le> uniform a b u \<and> uniform a b u \<le> b"
proof -
  have "0 \<le> (b - a) * u" using assms by simp
  moreover have "(b - a) * u \<le> (b - a) * 1"
    using assms by (intro mult_left_mono) simp_all
  ultimately show ?thesis by (simp add: uniform_def)
qed

text \<open>
  Claim C9. For a positive batch size the batches submitted are consecutive slices of the
  pending codes in their order: none is empty or larger than
  \<^verbatim>\<open>max_concurrent_requests\<close> and all but the last have exactly that size. A batch is
  followed by one pause exactly when it is not the last, and for draws in the unit interval
  every pause lies between \<^verbatim>\<open>batch_delay_min\<close> and \<^verbatim>\<open>batch_delay_max\<close>.
\<close>

theorem fixed_size_batches_with_pauses:
  assumes input: "files0 ''clave_ct_list_federal_primaria.txt'' = Some content"
    and size: "0 < max_concurrent_requests config"
    and delays: "batch_delay_min config \<le> batch_delay_max config"
    and draws: "\<forall>k. 0 \<le> pause_draw k \<and> pause_draw k \<le> 1"
  shows
    "let st = snd (run_job config run_task pause_draw clock files0);
         batches = submitted (job_trace st)
     in concat batches = pending_codes content (progress_file config) files0 \<and>
        (\<forall>b\<in>set batches. 1 \<le> length b \<and> int (length b) \<le> max_concurrent_requests config) \<and>
        (\<forall>b\<in>set (butlast batches). int (length b) = max_concurrent_requests config) \<and>
        job_trace st =
          concat (map (\<lambda>(k, b).
                    Submit b #
                    (if k < length batches
                     then [BatchPause (uniform (batch_delay_min config) (batch_delay_max config)
                                         (pause_draw k))]
                     else []))
                  (enumerate 1 batches)) \<and>
        (\<forall>d\<in>set (pauses (job_trace st)).
           batch_delay_min config \<le> d \<and> d \<le> batch_delay_max config)"
proof -
  let ?st = "snd (run_job config run_task pause_draw clock files0)"
  let ?bl = "batches_of (max_concurrent_requests config)
               (pending_codes content (progress_file config) files0)"
  have sub: "submitted (job_trace ?st) = ?bl"
    by (rule run_job_submitted[where ?files0.0 = files0, OF input size])
  have tr: "job_trace ?st =
      concat (map (batch_events config pause_draw (int (length ?bl))) (enumerate 1 ?bl))"
    by (simp add: run_job_state[where ?files0.0 = files0, OF input size] process_batches_job_trace)
  have ev: "map (batch_events config pause_draw (int (length ?bl))) (enumerate 1 ?bl) =
      map (\<lambda>(k, b).
             Submit b #
             (if k < length ?bl
              then [BatchPause (uniform (batch_delay_min config) (batch_delay_max config)
                                  (pause_draw k))]
              else []))
          (enumerate 1 ?bl)"
    by (intro map_cong) (auto simp: batch_events_def)
  have c1: "concat ?bl = pending_codes content (progress_file config) files0"
    by (rule concat_batches_of[OF size])
  have c2: "\<forall>b\<in>set ?bl. 1 \<le> length b \<and> int (length b) \<le> max_concurrent_requests config"
    using batches_of_sizes[OF size] by blast
  have c3: "\<forall>b\<in>set (butlast ?bl). int (length b) = max_concurrent_requests config"
    using batches_of_full[OF size] by blast
  have c5: "\<forall>d\<in>set (pauses (job_trace ?st)).
           batch_delay_min config \<le> d \<and> d \<le> batch_delay_max config"
  proof
    fix d assume "d \<in> set (pauses (job_trace ?st))"
    then obtain k where "d = uniform (batch_delay_min config) (batch_delay_max config) (pause_draw k)"
      unfolding tr by (blast dest: pauses_batch_events)
    then show "batch_delay_min config \<le> d \<and> d \<le> batch_delay_max config"
      using uniform_between[OF delays, of "pause_draw k"] draws by simp
  qed
  show ?thesis
    unfolding Let_def sub using c1 c2 c3 c5 tr[unfolded ev] by (intro conjI)
qed

lemma run_job_accounting:
  assumes input: "files0 ''clave_ct_list_federal_primaria.txt'' = Some content"
    and size: "0 < max_concurrent_requests config"
    and out: "failed_codes_file config \<noteq> output_file config"
    and prog: "failed_codes_file config \<noteq> progress_file config"
  shows
    "let st = snd (run_job config run_task pause_draw clock files0);
         pending = pending_codes content (progress_file config) files0;
         results = map run_task pending
     in concat (submitted (job_trace st)) = pending \<and>
        total_processed st = length pending \<and>
        successful_count st + failed_count st = length pending \<and>
        failed_count st =
          length (filter (\<lambda>r. case r of
                                 TaskException e \<Rightarrow> True
                               | TaskResult res \<Rightarrow> \<not> snd (save_result_incrementally res config files0))
                    results) \<and>
        file_text (disk st) (failed_codes_file config) =
          file_text files0 (failed_codes_file config) @
          concat (map (\<lambda>(n, r). case r of
                                   TaskException e \<Rightarrow> []
                                 | TaskResult res \<Rightarrow>
                                     if snd (save_result_incrementally res config files0) then []
                                     else result_ct_code res @ ''|'' @
                                          or_else (last_error res) ''Unknown error'' @ ''|'' @
                                          clock n @ [CHR 0x0A])
                    (enumerate 1 results)) \<and>
        List.map_filter (\<lambda>m. case m of LogException e \<Rightarrow> Some e | _ \<Rightarrow> None) (messages st) =
          List.map_filter (\<lambda>r. case r of TaskException e \<Rightarrow> Some e | _ \<Rightarrow> None) results"
proof -
  let ?st = "snd (run_job config run_task pause_draw clock files0)"
  let ?pending = "pending_codes content (progress_file config) files0"
  let ?bl = "batches_of (max_concurrent_requests config) ?pending"
  note state = run_job_state[where ?files0.0 = files0, OF input size]
  have cat: "concat (map snd (enumerate 1 ?bl)) = ?pending"
    by (simp add: map_snd_enumerate' concat_batches_of[OF size])
  have c1: "concat (submitted (job_trace ?st)) = ?pending"
    by (simp add: run_job_submitted[where ?files0.0 = files0, OF input size] concat_batches_of[OF size])
  have c2: "total_processed ?st = length ?pending"
    unfolding state process_batches_total cat by simp
  have c3: "successful_count ?st + failed_count ?st = length ?pending"
    unfolding state process_batches_counts cat by simp
  have f: "is_failure = (\<lambda>r. case r of
                                 TaskException e \<Rightarrow> True
                               | TaskResult res \<Rightarrow> \<not> snd (save_result_incrementally res config files0))"
    by (auto simp: fun_eq_iff is_failure_def save_result_snd split: task_result.splits)
  have c4: "failed_count ?st = length (filter is_failure (map run_task ?pending))"
    unfolding state process_batches_failed cat by simp
  have e: "failure_entry config clock = (\<lambda>(n, r). case r of
                                   TaskException e \<Rightarrow> []
                                 | TaskResult res \<Rightarrow>
                                     if snd (save_result_incrementally res config files0) then []
                                     else result_ct_code res @ ''|'' @
                                          or_else (last_error res) ''Unknown error'' @ ''|'' @
                                          clock n @ [CHR 0x0A])"
    by (auto simp: fun_eq_iff failure_entry_def save_result_snd split: task_result.splits)
  have c5: "file_text (disk ?st) (failed_codes_file config) =
          file_text files0 (failed_codes_file config) @
          concat (map (failure_entry config clock) (enumerate 1 (map run_task ?pending)))"
    unfolding state process_batches_failure_log[OF out prog] cat by simp
  have c6: "List.map_filter (\<lambda>m. case m of LogException e \<Rightarrow> Some e | _ \<Rightarrow> None) (messages ?st) =
          List.map_filter (\<lambda>r. case r of TaskException e \<Rightarrow> Some e | _ \<Rightarrow> None) (map run_task ?pending)"
    unfolding state process_batches_exceptions cat by (simp add: List.map_filter_simps)
  show ?thesis
    unfolding Let_def using c1 c2 c3 c4[unfolded f] c5[unfolded e] c6 by (intro conjI)
qed

theorem processed_codes_skipped_on_rerun_witness:
  "rerun_files ''clave_ct_list_federal_primaria.txt'' =
     Some ''09DPR0001A\<newline>09DPR0002B\<newline> 09DPR0003C \<newline>\<newline>09DPR0004D\<newline>09DPR0005E'' \<and>
   load_progress (progress_file ScraperConfig_default) rerun_files = {''09DPR0002B''} \<and>
   concat (submitted (job_trace (snd (read_ct_codes_from_file mixed_tasks mid_draw noon rerun_files)))) =
     [''09DPR0001A'', ''09DPR0003C'', ''09DPR0004D'', ''09DPR0005E'']"
proof -
  have h: "rerun_files ''clave_ct_list_federal_primaria.txt'' =
     Some ''09DPR0001A\<newline>09DPR0002B\<newline> 09DPR0003C \<newline>\<newline>09DPR0004D\<newline>09DPR0005E''"
    by (simp add: rerun_files_def)
  have p: "load_progress (progress_file ScraperConfig_default) rerun_files = {''09DPR0002B''}"
    by code_simp
  have a: "filter (\<lambda>code. code \<notin> {''09DPR0002B''})
             (filter (\<lambda>line. line \<noteq> [])
                (map strip (readlines ''09DPR0001A\<newline>09DPR0002B\<newline> 09DPR0003C \<newline>\<newline>09DPR0004D\<newline>09DPR0005E''))) =
           [''09DPR0001A'', ''09DPR0003C'', ''09DPR0004D'', ''09DPR0005E'']"
    by code_simp
  from processed_codes_skipped_on_rerun[where ?files0.0 = rerun_files, OF h, of mixed_tasks mid_draw noon]
  have "concat (submitted (job_trace (snd (read_ct_codes_from_file mixed_tasks mid_draw noon rerun_files)))) =
     [''09DPR0001A'', ''09DPR0003C'', ''09DPR0004D'', ''09DPR0005E'']"
    unfolding Let_def p a by blast
  with h p show ?thesis by blast
qed

theorem fixed_size_batches_with_pauses_witness:
  "rerun_files ''clave_ct_list_federal_primaria.txt'' =
     Some ''09DPR0001A\<newline>09DPR0002B\<newline> 09DPR0003C \<newline>\<newline>09DPR0004D\<newline>09DPR0005E'' \<and>
   0 < max_concurrent_requests ScraperConfig_default \<and>
   batch_delay_min ScraperConfig_default \<le> batch_delay_max ScraperConfig_default \<and>
   (\<forall>k. 0 \<le> mid_draw k \<and> mid_draw k \<le> 1) \<and>
   job_trace (snd (run_job ScraperConfig_default mixed_tasks mid_draw noon rerun_files)) =
     [Submit [''09DPR0001A'', ''09DPR0003C'', ''09DPR0004D''], BatchPause (3 / 2),
      Submit [''09DPR0005E'']] \<and>
   batch_delay_min ScraperConfig_default \<le> 3 / 2 \<and> 3 / 2 \<le> batch_delay_max ScraperConfig_default"
proof -
  have h1: "rerun_files ''clave_ct_list_federal_primaria.txt'' =
     Some ''09DPR0001A\<newline>09DPR0002B\<newline> 09DPR0003C \<newline>\<newline>09DPR0004D\<newline>09DPR0005E''"
    by (simp add: rerun_files_def)
  have h2: "0 < max_concurrent_requests ScraperConfig_default"
    by (simp add: ScraperConfig_default_def)
  have h3: "batch_delay_min ScraperConfig_default \<le> batch_delay_max ScraperConfig_default"
    by (simp add: ScraperConfig_default_def)
  have h4: "\<forall>k. 0 \<le> mid_draw k \<and> mid_draw k \<le> 1"
    by (simp add: mid_draw_def)
  have tr: "job_trace (snd (run_job ScraperConfig_default mixed_tasks mid_draw noon rerun_files)) =
     [Submit [''09DPR0001A'', ''09DPR0003C'', ''09DPR0004D''], BatchPause (3 / 2),
      Submit [''09DPR0005E'']]"
    by code_simp
  from fixed_size_batches_with_pauses[where ?files0.0 = rerun_files, OF h1 h2 h3 h4, of mixed_tasks noon]
  have "\<forall>d\<in>set (pauses (job_trace (snd (run_job ScraperConfig_default mixed_tasks mid_draw noon rerun_files)))).
           batch_delay_min ScraperConfig_default \<le> d \<and> d \<le> batch_delay_max ScraperConfig_default"
    unfolding Let_def by blast
  then have "batch_delay_min ScraperConfig_default \<le> 3 / 2 \<and> 3 / 2 \<le> batch_delay_max ScraperConfig_default"
    unfolding tr by simp
  with h1 h2 h3 h4 tr show ?thesis by blast
qed

section \<open>Properties of the patterns, the saved lines and the loader\<close>

lemma first_some_SomeD:
  "first_some f ks = Some y \<Longrightarrow> \<exists>k\<in>set ks. f k = Some y"
  by (induction ks) (auto split: option.splits)

lemma first_some_NoneD:
  "first_some f ks = None \<Longrightarrow> k \<in> set ks \<Longrightarrow> f k = None"
  by (induction ks) (auto split: option.splits)

lemma first_some_hd:
  "f k = Some y \<Longrightarrow> first_some f (k # ks) = Some y"
  by simp

lemma take_run_length:
  "k \<le> run_length cls s \<Longrightarrow> list_all (in_class cls) (take k s)"
proof -
  assume "k \<le> run_length cls s"
  then have "take k s = take k (takeWhile (in_class cls) s)"
    by (metis run_length_def takeWhile_eq_take take_take min.absorb1)
  moreover have "list_all (in_class cls) (takeWhile (in_class cls) s)"
    by (simp add: list_all_iff) (meson set_takeWhileD)
  ultimately show ?thesis
    by (metis list_all_iff in_set_takeD)
qed

lemma run_length_prefix:
  "list_all (in_class cls) p \<Longrightarrow> length p \<le> run_length cls (p @ r)"
  by (simp add: run_length_def list_all_iff takeWhile_append2)

lemma many_SomeD:
  assumes "first_some (\<lambda>k. map_option (\<lambda>(ps, r). (take k s # ps, r)) (rx_match items (drop k s)))
             (rev [lo ..< Suc (run_length cls s)]) = Some (qs, r)"
  shows "\<exists>k ps. lo \<le> k \<and> k \<le> run_length cls s \<and> qs = take k s # ps \<and>
            rx_match items (drop k s) = Some (ps, r)"
proof -
  from first_some_SomeD[OF assms] obtain k where
    k: "k \<in> set (rev [lo ..< Suc (run_length cls s)])"
    and fk: "map_option (\<lambda>(ps, r). (take k s # ps, r)) (rx_match items (drop k s)) = Some (qs, r)"
    by blast
  from fk obtain ps where "rx_match items (drop k s) = Some (ps, r)" "qs = take k s # ps"
    by auto
  with k show ?thesis by auto
qed

lemma rx_match_sound:
  "rx_match items s = Some (ps, r) \<Longrightarrow> s = concat ps @ r \<and> list_all2 item_matches items ps"
proof (induction items arbitrary: s ps r)
  case Nil
  then show ?case by simp
next
  case (Cons item items)
  show ?case
  proof (cases item)
    case (Lit c)
    with Cons.prems obtain xs ps' where "s = c # xs" "rx_match items xs = Some (ps', r)" "ps = [c] # ps'"
      by (auto split: list.splits if_splits)
    with Cons.IH[of xs ps' r] Lit show ?thesis by simp
  next
    case (Opt c)
    from Cons.prems Opt consider
      (taken) xs ps' where "s = c # xs" "rx_match items xs = Some (ps', r)" "ps = [c] # ps'"
      | (skipped) ps' where "rx_match items s = Some (ps', r)" "ps = [] # ps'"
      by (auto split: list.splits if_splits option.splits)
    then show ?thesis
    proof cases
      case taken
      with Cons.IH[of xs ps' r] Opt show ?thesis by simp
    next
      case skipped
      with Cons.IH[of s ps' r] Opt show ?thesis by simp
    qed
  next
    case (Many1 cls)
    with Cons.prems many_SomeD[of s items 1 cls ps r]
    obtain k ps' where k: "1 \<le> k" "k \<le> run_length cls s" "ps = take k s # ps'"
      "rx_match items (drop k s) = Some (ps', r)"
      by auto
    from k(1,2) have "take k s \<noteq> []"
      by (auto simp: run_length_def)
    with Cons.IH[OF k(4)] k take_run_length[OF k(2)] Many1 show ?thesis
      by (simp) (metis append_take_drop_id append.assoc)
  next
    case (Many0 cls)
    with Cons.prems many_SomeD[of s items 0 cls ps r]
    obtain k ps' where k: "k \<le> run_length cls s" "ps = take k s # ps'"
      "rx_match items (drop k s) = Some (ps', r)"
      by auto
    with Cons.IH[OF k(3)] take_run_length[OF k(1)] Many0 show ?thesis
      by (simp) (metis append_take_drop_id append.assoc)
  qed
qed

lemma first_some_exists:
  "k \<in> set ks \<Longrightarrow> f k \<noteq> None \<Longrightarrow> first_some f ks \<noteq> None"
  by (induction ks) (auto split: option.splits)

lemma rx_match_complete:
  "list_all2 item_matches items ps \<Longrightarrow> rx_match items (concat ps @ r) \<noteq> None"
proof (induction items arbitrary: ps)
  case Nil
  then show ?case by simp
next
  case (Cons item items)
  from Cons.prems obtain p ps' where ps: "ps = p # ps'" "item_matches item p"
    "list_all2 item_matches items ps'"
    by (auto simp: list_all2_Cons1)
  note ih = Cons.IH[OF ps(3)]
  show ?case
  proof (cases item)
    case (Lit c)
    with ps ih show ?thesis by auto
  next
    case (Opt c)
    with ps ih show ?thesis by (auto split: option.splits list.splits)
  next
    case (Many1 cls)
    with ps have p: "p \<noteq> []" "list_all (in_class cls) p" by simp_all
    let ?s = "concat ps @ r"
    have s: "?s = p @ (concat ps' @ r)" using ps by simp
    have "length p \<le> run_length cls ?s"
      unfolding s using p(2) by (rule run_length_prefix)
    moreover have "1 \<le> length p" using p(1) by (cases p) simp_all
    ultimately have mem: "length p \<in> set (rev [1 ..< Suc (run_length cls ?s)])" by auto
    have "drop (length p) ?s = concat ps' @ r" unfolding s by simp
    with ih have "map_option (\<lambda>(qs, r). (take (length p) ?s # qs, r))
                    (rx_match items (drop (length p) ?s)) \<noteq> None"
      by simp
    from first_some_exists[where f = "\<lambda>k. map_option (\<lambda>(qs, r). (take k ?s # qs, r))
                    (rx_match items (drop k ?s))", OF mem this] Many1
    show ?thesis by simp
  next
    case (Many0 cls)
    with ps have p: "list_all (in_class cls) p" by simp
    let ?s = "concat ps @ r"
    have s: "?s = p @ (concat ps' @ r)" using ps by simp
    have "length p \<le> run_length cls ?s"
      unfolding s using p by (rule run_length_prefix)
    then have mem: "length p \<in> set (rev [0 ..< Suc (run_length cls ?s)])" by auto
    have "drop (length p) ?s = concat ps' @ r" unfolding s by simp
    with ih have "map_option (\<lambda>(qs, r). (take (length p) ?s # qs, r))
                    (rx_match items (drop (length p) ?s)) \<noteq> None"
      by simp
    from first_some_exists[where f = "\<lambda>k. map_option (\<lambda>(qs, r). (take k ?s # qs, r))
                    (rx_match items (drop k ?s))", OF mem this] Many0
    show ?thesis by simp
  qed
qed

lemma rx_match_split:
  "rx_match (items1 @ items2) s = Some (ps, r) \<Longrightarrow>
   \<exists>ps1 ps2. ps = ps1 @ ps2 \<and> length ps1 = length items1 \<and>
     rx_match items2 (drop (length (concat ps1)) s) = Some (ps2, r)"
proof (induction items1 arbitrary: s ps r)
  case Nil
  then show ?case by simp
next
  case (Cons item items)
  have step: "\<exists>ps1 ps2. ps = ps1 @ ps2 \<and> length ps1 = length (item # items) \<and>
     rx_match items2 (drop (length (concat ps1)) s) = Some (ps2, r)"
    if "ps = p # ps'" "rx_match (items @ items2) (drop (length p) s) = Some (ps', r)"
    for p ps'
  proof -
    from Cons.IH[OF that(2)] obtain ps1 ps2 where
      "ps' = ps1 @ ps2" "length ps1 = length items"
      "rx_match items2 (drop (length (concat ps1)) (drop (length p) s)) = Some (ps2, r)"
      by blast
    then have "ps = (p # ps1) @ ps2 \<and> length (p # ps1) = length (item # items) \<and>
       rx_match items2 (drop (length (concat (p # ps1))) s) = Some (ps2, r)"
      using that(1) by (simp add: add.commute)
    then show ?thesis by blast
  qed
  show ?case
  proof (cases item)
    case (Lit c)
    with Cons.prems obtain xs ps' where "s = c # xs" "rx_match (items @ items2) xs = Some (ps', r)"
      "ps = [c] # ps'"
      by (auto split: list.splits if_splits)
    then show ?thesis by (intro step[of "[c]" ps']) simp_all
  next
    case (Opt c)
    from Cons.prems Opt consider
      (taken) xs ps' where "s = c # xs" "rx_match (items @ items2) xs = Some (ps', r)" "ps = [c] # ps'"
      | (skipped) ps' where "rx_match (items @ items2) s = Some (ps', r)" "ps = [] # ps'"
      by (auto split: list.splits if_splits option.splits)
    then show ?thesis
    proof cases
      case taken
      then show ?thesis by (intro step[of "[c]" ps']) simp_all
    next
      case skipped
      then show ?thesis by (intro step[of "[]" ps']) simp_all
    qed
  next
    case (Many1 cls)
    with Cons.prems many_SomeD[of s "items @ items2" 1 cls ps r]
    obtain k ps' where k: "k \<le> run_length cls s" "ps = take k s # ps'"
      "rx_match (items @ items2) (drop k s) = Some (ps', r)"
      by auto
    have "k \<le> length s" using k(1) by (simp add: run_length_def) (meson length_takeWhile_le order_trans)
    then have "length (take k s) = k" by simp
    with k show ?thesis by (intro step[of "take k s" ps']) simp_all
  next
    case (Many0 cls)
    with Cons.prems many_SomeD[of s "items @ items2" 0 cls ps r]
    obtain k ps' where k: "k \<le> run_length cls s" "ps = take k s # ps'"
      "rx_match (items @ items2) (drop k s) = Some (ps', r)"
      by auto
    have "k \<le> length s" using k(1) by (simp add: run_length_def) (meson length_takeWhile_le order_trans)
    then have "length (take k s) = k" by simp
    with k show ?thesis by (intro step[of "take k s" ps']) simp_all
  qed
qed

lemma re_search_sound:
  "re_search items s = Some ps \<Longrightarrow>
   \<exists>pre r. s = pre @ concat ps @ r \<and> list_all2 item_matches items ps"
proof (induction s)
  case Nil
  then obtain r where "rx_match items [] = Some (ps, r)" by auto
  from rx_match_sound[OF this] show ?case by (metis append_Nil)
next
  case (Cons c s)
  show ?case
  proof (cases "rx_match items (c # s)")
    case None
    with Cons.prems have "re_search items s = Some ps" by simp
    from Cons.IH[OF this] obtain pre r where "s = pre @ concat ps @ r" "list_all2 item_matches items ps"
      by blast
    then have "c # s = (c # pre) @ concat ps @ r \<and> list_all2 item_matches items ps" by simp
    then show ?thesis by blast
  next
    case (Some m)
    with Cons.prems obtain r where "rx_match items (c # s) = Some (ps, r)"
      by (cases m) simp
    from rx_match_sound[OF this] show ?thesis by (metis append_Nil)
  qed
qed

lemma re_search_complete:
  "list_all2 item_matches items ps \<Longrightarrow> re_search items (pre @ concat ps @ r) \<noteq> None"
proof (induction pre)
  case Nil
  have "re_search items t \<noteq> None" if "rx_match items t \<noteq> None" for t
    using that by (cases t) (auto split: option.splits)
  from this[OF rx_match_complete[OF Nil, of r]] show ?case by simp
next
  case (Cons c pre)
  from Cons.IH[OF Cons.prems] show ?case by (auto split: option.splits)
qed

lemma not_digit [simp]: "\<not> is_digit (CHR ''-'')" "\<not> is_digit (CHR ''.'')" "\<not> is_digit (CHR '','')"
  by (simp_all add: is_digit_def)

lemma take1_Cons: "take 1 s = [c] \<Longrightarrow> s = c # drop 1 s"
  by (cases s) auto

lemma in_class_Digit [simp]: "in_class Digit = is_digit"
  by (simp add: fun_eq_iff)

lemma digits_span:
  "list_all is_digit b \<Longrightarrow> \<not> is_digit c \<Longrightarrow>
   takeWhile is_digit (b @ c # d) = b \<and> dropWhile is_digit (b @ c # d) = c # d"
  by (simp add: list_all_iff takeWhile_tail dropWhile_append3)

lemma digits_all:
  "list_all is_digit b \<Longrightarrow> takeWhile is_digit b = b \<and> dropWhile is_digit b = []"
  by (simp add: list_all_iff)

lemma digits_no_sign: "b \<noteq> [] \<Longrightarrow> list_all is_digit b \<Longrightarrow> take 1 (b @ r) \<noteq> ''-''"
  by (cases b) auto

lemma pointed_number_pieces:
  "list_all2 item_matches pointed_number ps \<longleftrightarrow>
     (\<exists>a b d. ps = [a, b, ''.'', d] \<and> (a = ''-'' \<or> a = []) \<and> b \<noteq> [] \<and> list_all is_digit b \<and>
              d \<noteq> [] \<and> list_all is_digit d)"
  by (auto simp: pointed_number_def list_all2_Cons1)

lemma loose_number_pieces:
  "list_all2 item_matches loose_number ps \<longleftrightarrow>
     (\<exists>a b c d. ps = [a, b, c, d] \<and> (a = ''-'' \<or> a = []) \<and> b \<noteq> [] \<and> list_all is_digit b \<and>
              (c = ''.'' \<or> c = []) \<and> list_all is_digit d)"
  by (auto simp: loose_number_def list_all2_Cons1)

lemma pointed_decimal_of_pieces:
  assumes "list_all2 item_matches pointed_number ps"
  shows "pointed_decimal (concat ps)"
proof -
  from assms obtain a b d where ps: "ps = [a, b, ''.'', d]" and a: "a = ''-'' \<or> a = []"
    and b: "b \<noteq> []" "list_all is_digit b" and d: "d \<noteq> []" "list_all is_digit d"
    unfolding pointed_number_pieces by blast
  have span: "takeWhile is_digit (b @ CHR ''.'' # d) = b" "dropWhile is_digit (b @ CHR ''.'' # d) = CHR ''.'' # d"
    using digits_span[OF b(2), of "CHR ''.''" d] by simp_all
  from a show ?thesis
  proof
    assume "a = ''-''"
    then show ?thesis using ps span b d by (simp add: pointed_decimal_def)
  next
    assume "a = []"
    moreover have "take 1 (b @ CHR ''.'' # d) \<noteq> ''-''" using digits_no_sign[OF b] by simp
    ultimately show ?thesis using ps span b d by (simp add: pointed_decimal_def)
  qed
qed

lemma pieces_of_pointed_decimal:
  assumes "pointed_decimal s"
  shows "\<exists>ps. list_all2 item_matches pointed_number ps \<and> concat ps = s"
proof -
  let ?a = "if take 1 s = ''-'' then ''-'' else []"
  let ?u = "if take 1 s = ''-'' then drop 1 s else s"
  let ?b = "takeWhile is_digit ?u"
  let ?r = "dropWhile is_digit ?u"
  from assms have b: "?b \<noteq> []" and r: "take 1 ?r = ''.''" and d: "drop 1 ?r \<noteq> []" "list_all is_digit (drop 1 ?r)"
    unfolding pointed_decimal_def Let_def by simp_all
  have s: "s = ?a @ ?u"
  proof (cases "take 1 s = ''-''")
    case True
    from take1_Cons[OF this] True show ?thesis by simp
  next
    case False
    then show ?thesis by simp
  qed
  have u: "?u = ?b @ ?r" by simp
  have r': "?r = ''.'' @ drop 1 ?r" using take1_Cons[OF r] by simp
  have digits: "list_all is_digit ?b" by (simp add: list_all_iff) (meson set_takeWhileD)
  with b d have "list_all2 item_matches pointed_number [?a, ?b, ''.'', drop 1 ?r]"
    unfolding pointed_number_pieces by auto
  moreover have "concat [?a, ?b, ''.'', drop 1 ?r] = ?a @ (?b @ (''.'' @ drop 1 ?r))"
    by simp
  then have "concat [?a, ?b, ''.'', drop 1 ?r] = s"
    using s u r' by presburger
  ultimately show ?thesis by blast
qed

lemma place_pattern_pieces:
  "list_all2 item_matches place_pattern ps \<longleftrightarrow>
     (\<exists>ps1 ps2. ps = [''p'', ''l'', ''a'', ''c'', ''e'', ''/''] @ ps1 @ ['',''] @ ps2 \<and>
        list_all2 item_matches pointed_number ps1 \<and> list_all2 item_matches pointed_number ps2)"
proof
  assume "list_all2 item_matches place_pattern ps"
  then have "list_all2 item_matches (map Lit ''place/'' @ (pointed_number @ ([Lit CHR '',''] @ pointed_number))) ps"
    by (simp add: place_pattern_def)
  then obtain qs rest1 where a: "ps = qs @ rest1" "list_all2 item_matches (map Lit ''place/'') qs"
    "list_all2 item_matches (pointed_number @ ([Lit CHR '',''] @ pointed_number)) rest1"
    unfolding list_all2_append1[of _ "map Lit ''place/''"] by blast
  from a(3) obtain ps1 rs where b: "rest1 = ps1 @ rs" "list_all2 item_matches pointed_number ps1"
    "list_all2 item_matches ([Lit CHR '',''] @ pointed_number) rs"
    unfolding list_all2_append1[of _ pointed_number] by blast
  from b(3) obtain ps2 where c: "rs = ['',''] @ ps2" "list_all2 item_matches pointed_number ps2"
    by (auto simp: list_all2_Cons1)
  from a(2) have d: "qs = [''p'', ''l'', ''a'', ''c'', ''e'', ''/'']"
    by (auto simp: list_all2_Cons1)
  from a(1) b(1,2) c d
  have "ps = [''p'', ''l'', ''a'', ''c'', ''e'', ''/''] @ ps1 @ ['',''] @ ps2 \<and>
        list_all2 item_matches pointed_number ps1 \<and> list_all2 item_matches pointed_number ps2"
    by simp
  then show "\<exists>ps1 ps2. ps = [''p'', ''l'', ''a'', ''c'', ''e'', ''/''] @ ps1 @ ['',''] @ ps2 \<and>
        list_all2 item_matches pointed_number ps1 \<and> list_all2 item_matches pointed_number ps2"
    by blast
next
  assume "\<exists>ps1 ps2. ps = [''p'', ''l'', ''a'', ''c'', ''e'', ''/''] @ ps1 @ ['',''] @ ps2 \<and>
        list_all2 item_matches pointed_number ps1 \<and> list_all2 item_matches pointed_number ps2"
  then obtain ps1 ps2 where ps: "ps = [''p'', ''l'', ''a'', ''c'', ''e'', ''/''] @ ps1 @ ['',''] @ ps2"
    and 1: "list_all2 item_matches pointed_number ps1" and 2: "list_all2 item_matches pointed_number ps2"
    by blast
  have "list_all2 item_matches (map Lit ''place/'') [''p'', ''l'', ''a'', ''c'', ''e'', ''/'']"
    by simp
  moreover have "list_all2 item_matches [Lit CHR '',''] ['','']" by simp
  ultimately show "list_all2 item_matches place_pattern ps"
    unfolding place_pattern_def ps using 1 2 by (intro list_all2_appendI)
qed

lemma place_groups:
  assumes "list_all2 item_matches place_pattern ps"
  shows "concat ps = ''place/'' @ group_text 6 4 ps @ '','' @ group_text 11 4 ps"
    and "pointed_decimal (group_text 6 4 ps)"
    and "pointed_decimal (group_text 11 4 ps)"
proof -
  from assms obtain ps1 ps2 where ps: "ps = [''p'', ''l'', ''a'', ''c'', ''e'', ''/''] @ ps1 @ ['',''] @ ps2"
    and 1: "list_all2 item_matches pointed_number ps1" and 2: "list_all2 item_matches pointed_number ps2"
    unfolding place_pattern_pieces by blast
  from 1 have l1: "length ps1 = 4" by (auto simp: pointed_number_pieces)
  from 2 have l2: "length ps2 = 4" by (auto simp: pointed_number_pieces)
  have g1: "group_text 6 4 ps = concat ps1" using l1 by (simp add: group_text_def ps)
  have g2: "group_text 11 4 ps = concat ps2" using l1 l2 by (simp add: group_text_def ps)
  show "concat ps = ''place/'' @ group_text 6 4 ps @ '','' @ group_text 11 4 ps"
    unfolding g1 g2 by (simp add: ps)
  show "pointed_decimal (group_text 6 4 ps)"
    unfolding g1 using 1 by (rule pointed_decimal_of_pieces)
  show "pointed_decimal (group_text 11 4 ps)"
    unfolding g2 using 2 by (rule pointed_decimal_of_pieces)
qed

lemma re_search_place_Some:
  assumes "re_search place_pattern link = Some ps"
  shows "\<exists>pre post. link = pre @ ''place/'' @ group_text 6 4 ps @ '','' @ group_text 11 4 ps @ post"
    and "pointed_decimal (group_text 6 4 ps)"
    and "pointed_decimal (group_text 11 4 ps)"
proof -
  from re_search_sound[OF assms] obtain pre r where
    link: "link = pre @ concat ps @ r" and m: "list_all2 item_matches place_pattern ps"
    by blast
  from place_groups(1)[OF m] link
  have "link = pre @ ''place/'' @ group_text 6 4 ps @ '','' @ group_text 11 4 ps @ r"
    by simp
  then show "\<exists>pre post. link = pre @ ''place/'' @ group_text 6 4 ps @ '','' @ group_text 11 4 ps @ post"
    by blast
  show "pointed_decimal (group_text 6 4 ps)" "pointed_decimal (group_text 11 4 ps)"
    using place_groups(2,3)[OF m] by simp_all
qed

lemma re_search_place_None:
  "re_search place_pattern link = None \<longleftrightarrow> \<not> contains_place link"
proof
  assume none: "re_search place_pattern link = None"
  show "\<not> contains_place link"
  proof
    assume "contains_place link"
    then obtain pre lat lng post where link: "link = pre @ ''place/'' @ lat @ '','' @ lng @ post"
      and lat: "pointed_decimal lat" and lng: "pointed_decimal lng"
      unfolding contains_place_def by blast
    from pieces_of_pointed_decimal[OF lat] obtain ps1 where
      1: "list_all2 item_matches pointed_number ps1" "concat ps1 = lat" by blast
    from pieces_of_pointed_decimal[OF lng] obtain ps2 where
      2: "list_all2 item_matches pointed_number ps2" "concat ps2 = lng" by blast
    let ?ps = "[''p'', ''l'', ''a'', ''c'', ''e'', ''/''] @ ps1 @ ['',''] @ ps2"
    have "list_all2 item_matches place_pattern ?ps"
      unfolding place_pattern_pieces using 1(1) 2(1) by blast
    from re_search_complete[OF this, of pre post]
    have "re_search place_pattern (pre @ concat ?ps @ post) \<noteq> None" .
    moreover have "pre @ concat ?ps @ post = link"
      using 1(2) 2(2) link by simp
    ultimately show False using none by simp
  qed
next
  assume no: "\<not> contains_place link"
  show "re_search place_pattern link = None"
  proof (rule ccontr)
    assume "re_search place_pattern link \<noteq> None"
    then obtain ps where "re_search place_pattern link = Some ps" by blast
    from re_search_place_Some[OF this] have "contains_place link"
      unfolding contains_place_def by blast
    with no show False by simp
  qed
qed


lemma rev_upt_Suc_last: "lo \<le> n \<Longrightarrow> rev [lo ..< Suc n] = n # rev [lo ..< n]"
  by simp

lemma first_some_greedy:
  assumes "lo \<le> n" and "f n = Some y"
  shows "first_some f (rev [lo ..< Suc n]) = Some y"
  unfolding rev_upt_Suc_last[OF assms(1)] using assms(2) by simp

lemma rx_match_Many0_last:
  "rx_match [Many0 cls] s =
     Some ([takeWhile (in_class cls) s], dropWhile (in_class cls) s)"
proof -
  let ?n = "run_length cls s"
  have t: "take ?n s = takeWhile (in_class cls) s"
    unfolding run_length_def by (rule takeWhile_eq_take[symmetric])
  have d: "drop ?n s = dropWhile (in_class cls) s"
    unfolding run_length_def by (rule dropWhile_eq_drop[symmetric])
  have "rx_match [Many0 cls] s =
        first_some (\<lambda>k. map_option (\<lambda>(ps, r). (take k s # ps, r)) (rx_match [] (drop k s)))
          (rev [0 ..< Suc ?n])"
    by (simp only: rx_match.simps)
  also have "\<dots> = Some ([take ?n s], drop ?n s)"
    by (rule first_some_greedy) simp_all
  finally show ?thesis unfolding t d .
qed

declare rx_match.simps [simp del]

lemma rx_match_Opt_Many0:
  "rx_match [Opt c, Many0 cls] s =
     Some (if take 1 s = [c]
           then ([[c], takeWhile (in_class cls) (drop 1 s)], dropWhile (in_class cls) (drop 1 s))
           else ([[], takeWhile (in_class cls) s], dropWhile (in_class cls) s))"
proof (cases s)
  case Nil
  then show ?thesis
    by (simp add: rx_match.simps(3) rx_match_Many0_last)
next
  case (Cons x xs)
  then show ?thesis
    by (simp add: rx_match.simps(3) rx_match_Many0_last)
qed

lemma rx_match_Many1_greedy:
  assumes "\<And>t. rx_match items t \<noteq> None"
  shows "rx_match (Many1 cls # items) s =
     (if takeWhile (in_class cls) s = [] then None
      else map_option (\<lambda>(ps, r). (takeWhile (in_class cls) s # ps, r))
             (rx_match items (dropWhile (in_class cls) s)))"
proof (cases "takeWhile (in_class cls) s = []")
  case True
  then have "run_length cls s = 0" by (simp add: run_length_def)
  with True show ?thesis by (simp add: rx_match.simps(4))
next
  case False
  let ?n = "run_length cls s"
  from False have n: "1 \<le> ?n" by (simp add: run_length_def Suc_le_eq)
  have t: "take ?n s = takeWhile (in_class cls) s"
    unfolding run_length_def by (rule takeWhile_eq_take[symmetric])
  have d: "drop ?n s = dropWhile (in_class cls) s"
    unfolding run_length_def by (rule dropWhile_eq_drop[symmetric])
  obtain qs r where m: "rx_match items (drop ?n s) = Some (qs, r)"
    using assms by (metis option.exhaust surj_pair)
  have "rx_match (Many1 cls # items) s =
        first_some (\<lambda>k. map_option (\<lambda>(ps, r). (take k s # ps, r)) (rx_match items (drop k s)))
          (rev [1 ..< Suc ?n])"
    by (simp only: rx_match.simps)
  also have "\<dots> = Some (take ?n s # qs, r)"
    by (rule first_some_greedy[OF n]) (simp add: m)
  finally show ?thesis using False m unfolding t d by simp
qed

lemma rx_match_unsigned_explicit:
  "rx_match [Many1 Digit, Opt CHR ''.'', Many0 Digit] t =
     (if takeWhile is_digit t = [] then None
      else Some (if take 1 (dropWhile is_digit t) = ''.''
                 then ([takeWhile is_digit t, ''.'',
                        takeWhile is_digit (drop 1 (dropWhile is_digit t))],
                       dropWhile is_digit (drop 1 (dropWhile is_digit t)))
                 else ([takeWhile is_digit t, [], []], dropWhile is_digit t)))"
proof -
  have always: "\<And>u. rx_match [Opt CHR ''.'', Many0 Digit] u \<noteq> None"
    by (simp add: rx_match_Opt_Many0)
  have tw: "takeWhile is_digit (dropWhile is_digit t) = []"
    by (induction t) simp_all
  show ?thesis
    unfolding rx_match_Many1_greedy[OF always] rx_match_Opt_Many0
    by (simp add: tw)
qed

lemma rx_match_loose_number:
  "rx_match loose_number s =
     (if take 1 s = ''-''
      then map_option (\<lambda>(ps, r). (''-'' # ps, r))
             (rx_match [Many1 Digit, Opt CHR ''.'', Many0 Digit] (drop 1 s))
      else map_option (\<lambda>(ps, r). ([] # ps, r))
             (rx_match [Many1 Digit, Opt CHR ''.'', Many0 Digit] s))"
proof (cases s)
  case Nil
  then show ?thesis by (simp add: loose_number_def rx_match.simps(3))
next
  case (Cons x xs)
  show ?thesis
  proof (cases "x = CHR ''-''")
    case True
    have "rx_match [Many1 Digit, Opt CHR ''.'', Many0 Digit] (CHR ''-'' # xs) = None"
      by (simp add: rx_match_unsigned_explicit)
    with Cons True show ?thesis
      by (simp add: loose_number_def rx_match.simps(3) split: option.splits)
  next
    case False
    with Cons show ?thesis by (simp add: loose_number_def rx_match.simps(3))
  qed
qed

lemma rx_match_loose_number_prefix:
  assumes "rx_match loose_number s = Some (ps, r)"
  shows "concat ps = number_prefix s"
proof (cases "take 1 s = ''-''")
  case True
  with assms obtain qs where
    qs: "rx_match [Many1 Digit, Opt CHR ''.'', Many0 Digit] (drop 1 s) = Some (qs, r)"
    and ps: "ps = ''-'' # qs"
    unfolding rx_match_loose_number by auto
  from qs have "concat qs =
      takeWhile is_digit (drop 1 s) @
      (if take 1 (dropWhile is_digit (drop 1 s)) = ''.''
       then ''.'' @ takeWhile is_digit (drop 1 (dropWhile is_digit (drop 1 s))) else [])"
    unfolding rx_match_unsigned_explicit by (auto split: if_splits)
  with True ps show ?thesis by (simp add: number_prefix_def Let_def)
next
  case False
  with assms obtain qs where
    qs: "rx_match [Many1 Digit, Opt CHR ''.'', Many0 Digit] s = Some (qs, r)"
    and ps: "ps = [] # qs"
    unfolding rx_match_loose_number by auto
  from qs have "concat qs =
      takeWhile is_digit s @
      (if take 1 (dropWhile is_digit s) = ''.''
       then ''.'' @ takeWhile is_digit (drop 1 (dropWhile is_digit s)) else [])"
    unfolding rx_match_unsigned_explicit by (auto split: if_splits)
  with False ps show ?thesis by (simp add: number_prefix_def Let_def)
qed

lemma frac_prefix:
  "\<exists>r. rest = (if take 1 rest = ''.'' then ''.'' @ takeWhile P (drop 1 rest) else []) @ r"
proof (cases rest)
  case Nil
  then show ?thesis by simp
next
  case (Cons x xs)
  show ?thesis
  proof (cases "x = CHR ''.''")
    case True
    with Cons show ?thesis by (intro exI[of _ "dropWhile P xs"]) simp
  next
    case False
    with Cons show ?thesis by simp
  qed
qed

lemma unsigned_prefix:
  "\<exists>r. u = (takeWhile is_digit u @
         (if take 1 (dropWhile is_digit u) = ''.''
          then ''.'' @ takeWhile is_digit (drop 1 (dropWhile is_digit u)) else [])) @ r"
proof -
  from frac_prefix[of "dropWhile is_digit u" is_digit] obtain r where
    r: "dropWhile is_digit u =
        (if take 1 (dropWhile is_digit u) = ''.''
         then ''.'' @ takeWhile is_digit (drop 1 (dropWhile is_digit u)) else []) @ r"
    by blast
  have "u = takeWhile is_digit u @ dropWhile is_digit u"
    by (rule takeWhile_dropWhile_id[symmetric])
  with r show ?thesis by (metis append.assoc)
qed

lemma number_prefix_signed:
  "number_prefix (CHR ''-'' # t) =
     CHR ''-'' # (takeWhile is_digit t @
       (if take 1 (dropWhile is_digit t) = ''.''
        then ''.'' @ takeWhile is_digit (drop 1 (dropWhile is_digit t)) else []))"
  by (simp add: number_prefix_def Let_def)

lemma number_prefix_unsigned:
  "take 1 s \<noteq> ''-'' \<Longrightarrow>
   number_prefix s =
     takeWhile is_digit s @
       (if take 1 (dropWhile is_digit s) = ''.''
        then ''.'' @ takeWhile is_digit (drop 1 (dropWhile is_digit s)) else [])"
  by (simp add: number_prefix_def Let_def)

lemma number_prefix_is_prefix: "\<exists>r. s = number_prefix s @ r"
proof (cases "take 1 s = ''-''")
  case True
  then obtain t where s: "s = CHR ''-'' # t" by (cases s) auto
  from unsigned_prefix[of t] obtain r where
    "t = (takeWhile is_digit t @
         (if take 1 (dropWhile is_digit t) = ''.''
          then ''.'' @ takeWhile is_digit (drop 1 (dropWhile is_digit t)) else [])) @ r"
    by blast
  then have "CHR ''-'' # t = number_prefix (CHR ''-'' # t) @ r"
    unfolding number_prefix_signed by (metis append_Cons)
  then show ?thesis unfolding s by blast
next
  case False
  from unsigned_prefix[of s] show ?thesis
    unfolding number_prefix_unsigned[OF False] .
qed

lemma decimal_number_signed: "decimal_number (CHR ''-'' # t) = unsigned_number t"
  by (simp add: decimal_number_def unsigned_number_def Let_def)

lemma decimal_number_unsigned: "take 1 s \<noteq> ''-'' \<Longrightarrow> decimal_number s = unsigned_number s"
  by (simp add: decimal_number_def unsigned_number_def Let_def)

lemma unsigned_number_pieces:
  assumes "b \<noteq> []" and "list_all is_digit b" and "c = ''.'' \<or> c = []" and "list_all is_digit d"
  shows "unsigned_number (b @ c @ d)" and "take 1 (b @ c @ d) \<noteq> ''-''"
    and "CHR '','' \<notin> set (b @ c @ d)"
proof -
  show "take 1 (b @ c @ d) \<noteq> ''-''"
    using assms(1,2) by (cases b) auto
  have nd: "\<And>x. is_digit x \<Longrightarrow> x \<noteq> CHR '',''" by auto
  show "CHR '','' \<notin> set (b @ c @ d)"
    using assms(2,3,4) nd by (auto simp: list_all_iff)
  from assms(3) show "unsigned_number (b @ c @ d)"
  proof
    assume c: "c = ''.''"
    from digits_span[OF assms(2), of "CHR ''.''" d]
    have "takeWhile is_digit (b @ CHR ''.'' # d) = b" "dropWhile is_digit (b @ CHR ''.'' # d) = CHR ''.'' # d"
      by simp_all
    then show ?thesis using assms(1,4) c by (simp add: unsigned_number_def)
  next
    assume c: "c = []"
    have "list_all is_digit (b @ d)" using assms(2,4) by simp
    from digits_all[OF this] show ?thesis using assms(1) c by (simp add: unsigned_number_def)
  qed
qed

lemma pieces_of_unsigned_number:
  assumes "unsigned_number u"
  shows "\<exists>b c d. u = b @ c @ d \<and> b \<noteq> [] \<and> list_all is_digit b \<and> (c = ''.'' \<or> c = []) \<and>
           list_all is_digit d"
proof -
  let ?b = "takeWhile is_digit u"
  let ?r = "dropWhile is_digit u"
  have digits: "list_all is_digit ?b" by (simp add: list_all_iff) (meson set_takeWhileD)
  have u: "u = ?b @ ?r" by (rule takeWhile_dropWhile_id[symmetric])
  from assms have b: "?b \<noteq> []"
    and r: "?r = [] \<or> (take 1 ?r = ''.'' \<and> list_all is_digit (drop 1 ?r))"
    unfolding unsigned_number_def by blast+
  from r show ?thesis
  proof
    assume "?r = []"
    with u have "u = ?b @ [] @ []" by (metis append_Nil2)
    moreover have "list_all is_digit []" by simp
    ultimately show ?thesis using b digits by blast
  next
    assume p: "take 1 ?r = ''.'' \<and> list_all is_digit (drop 1 ?r)"
    then obtain xs where xs: "?r = CHR ''.'' # xs" by (cases ?r) auto
    with p have "list_all is_digit xs" by simp
    moreover from u xs have "u = ?b @ ''.'' @ xs" by (metis append_Cons append_Nil)
    ultimately show ?thesis using b digits by blast
  qed
qed

lemma decimal_number_of_pieces:
  assumes "list_all2 item_matches loose_number ps"
  shows "decimal_number (concat ps)" and "CHR '','' \<notin> set (concat ps)"
    and "length ps = 4"
proof -
  from assms obtain a b c d where ps: "ps = [a, b, c, d]" and a: "a = ''-'' \<or> a = []"
    and b: "b \<noteq> []" "list_all is_digit b" and c: "c = ''.'' \<or> c = []" and d: "list_all is_digit d"
    unfolding loose_number_pieces by blast
  note u = unsigned_number_pieces[OF b c d]
  show "length ps = 4" using ps by simp
  from a show "decimal_number (concat ps)"
  proof
    assume "a = ''-''"
    then have "concat ps = CHR ''-'' # (b @ c @ d)" by (simp add: ps)
    then show ?thesis using u(1) by (simp only: decimal_number_signed)
  next
    assume "a = []"
    then have "concat ps = b @ c @ d" by (simp add: ps)
    then show ?thesis using u(1) decimal_number_unsigned[OF u(2)] by simp
  qed
  from a show "CHR '','' \<notin> set (concat ps)"
  proof
    assume "a = ''-''"
    then have "concat ps = CHR ''-'' # (b @ c @ d)" by (simp add: ps)
    then show ?thesis using u(3) by simp
  next
    assume "a = []"
    then have "concat ps = b @ c @ d" by (simp add: ps)
    then show ?thesis using u(3) by simp
  qed
qed

lemma pieces_of_decimal_number:
  assumes "decimal_number s"
  shows "\<exists>ps. list_all2 item_matches loose_number ps \<and> concat ps = s"
proof (cases "take 1 s = ''-''")
  case True
  then obtain t where s: "s = CHR ''-'' # t" by (cases s) auto
  with assms have "unsigned_number t" by (simp only: decimal_number_signed)
  from pieces_of_unsigned_number[OF this] obtain b c d where
    p: "t = b @ c @ d" "b \<noteq> []" "list_all is_digit b" "c = ''.'' \<or> c = []" "list_all is_digit d"
    by blast
  have "list_all2 item_matches loose_number [''-'', b, c, d]"
    unfolding loose_number_pieces using p(2-5) by blast
  moreover have "concat [''-'', b, c, d] = s" unfolding s p(1) by simp
  ultimately show ?thesis by blast
next
  case False
  from assms have "unsigned_number s" unfolding decimal_number_unsigned[OF False] .
  from pieces_of_unsigned_number[OF this] obtain b c d where
    p: "s = b @ c @ d" "b \<noteq> []" "list_all is_digit b" "c = ''.'' \<or> c = []" "list_all is_digit d"
    by blast
  have "list_all2 item_matches loose_number [[], b, c, d]"
    unfolding loose_number_pieces using p(2-5) by blast
  moreover have "concat [[], b, c, d] = b @ c @ d" by simp
  ultimately show ?thesis using p(1) by metis
qed

lemma separator_unique:
  "c \<notin> set xs \<Longrightarrow> c \<notin> set xs' \<Longrightarrow> xs @ c # ys = xs' @ c # ys' \<Longrightarrow> xs = xs' \<and> ys = ys'"
proof (induction xs arbitrary: xs')
  case Nil
  then show ?case by (cases xs') auto
next
  case (Cons x xs)
  then show ?case by (cases xs') auto
qed

lemma line_pattern_pieces:
  "list_all2 item_matches line_pattern ps \<longleftrightarrow>
     (\<exists>ident ps1 ps2. ps = [ident, ''-''] @ ps1 @ ['',''] @ ps2 \<and>
        ident \<noteq> [] \<and> CHR ''-'' \<notin> set ident \<and>
        list_all2 item_matches loose_number ps1 \<and> list_all2 item_matches loose_number ps2)"
proof
  assume "list_all2 item_matches line_pattern ps"
  then have "list_all2 item_matches
      ([Many1 (NotChar CHR ''-''), Lit CHR ''-''] @ (loose_number @ ([Lit CHR '',''] @ loose_number))) ps"
    by (simp add: line_pattern_def)
  then obtain qs rest1 where a: "ps = qs @ rest1"
    "list_all2 item_matches [Many1 (NotChar CHR ''-''), Lit CHR ''-''] qs"
    "list_all2 item_matches (loose_number @ ([Lit CHR '',''] @ loose_number)) rest1"
    unfolding list_all2_append1[of _ "[Many1 (NotChar CHR ''-''), Lit CHR ''-'']"] by blast
  from a(3) obtain ps1 rs where b: "rest1 = ps1 @ rs" "list_all2 item_matches loose_number ps1"
    "list_all2 item_matches ([Lit CHR '',''] @ loose_number) rs"
    unfolding list_all2_append1[of _ loose_number] by blast
  from b(3) obtain ps2 where c: "rs = ['',''] @ ps2" "list_all2 item_matches loose_number ps2"
    by (auto simp: list_all2_Cons1)
  from a(2) obtain ident where d: "qs = [ident, ''-'']" "ident \<noteq> []" "CHR ''-'' \<notin> set ident"
    by (auto simp: list_all2_Cons1 list_all_iff)
  from a(1) b(1,2) c d
  have "ps = [ident, ''-''] @ ps1 @ ['',''] @ ps2 \<and>
        ident \<noteq> [] \<and> CHR ''-'' \<notin> set ident \<and>
        list_all2 item_matches loose_number ps1 \<and> list_all2 item_matches loose_number ps2"
    by simp
  then show "\<exists>ident ps1 ps2. ps = [ident, ''-''] @ ps1 @ ['',''] @ ps2 \<and>
        ident \<noteq> [] \<and> CHR ''-'' \<notin> set ident \<and>
        list_all2 item_matches loose_number ps1 \<and> list_all2 item_matches loose_number ps2"
    by blast
next
  assume "\<exists>ident ps1 ps2. ps = [ident, ''-''] @ ps1 @ ['',''] @ ps2 \<and>
        ident \<noteq> [] \<and> CHR ''-'' \<notin> set ident \<and>
        list_all2 item_matches loose_number ps1 \<and> list_all2 item_matches loose_number ps2"
  then obtain ident ps1 ps2 where ps: "ps = [ident, ''-''] @ ps1 @ ['',''] @ ps2"
    and i: "ident \<noteq> []" "CHR ''-'' \<notin> set ident"
    and 1: "list_all2 item_matches loose_number ps1" and 2: "list_all2 item_matches loose_number ps2"
    by blast
  have "list_all2 item_matches [Many1 (NotChar CHR ''-''), Lit CHR ''-''] [ident, ''-'']"
    using i by (auto simp: list_all_iff)
  moreover have "list_all2 item_matches [Lit CHR '',''] ['','']" by simp
  ultimately show "list_all2 item_matches line_pattern ps"
    unfolding line_pattern_def ps using 1 2 by (intro list_all2_appendI)
qed

lemma rx_match_line_pattern:
  assumes "rx_match line_pattern line = Some (ps, r)"
  shows "\<exists>ident lat tail.
     line = ident @ ''-'' @ lat @ '','' @ tail \<and> ident \<noteq> [] \<and> CHR ''-'' \<notin> set ident \<and>
     decimal_number lat \<and> decimal_number (number_prefix tail) \<and>
     group_text 0 1 ps = ident \<and> group_text 2 4 ps = lat \<and> group_text 7 4 ps = number_prefix tail"
proof -
  from rx_match_sound[OF assms] have line: "line = concat ps @ r"
    and m: "list_all2 item_matches line_pattern ps" by simp_all
  from m obtain ident ps1 ps2 where ps: "ps = [ident, ''-''] @ ps1 @ ['',''] @ ps2"
    and i: "ident \<noteq> []" "CHR ''-'' \<notin> set ident"
    and 1: "list_all2 item_matches loose_number ps1" and 2: "list_all2 item_matches loose_number ps2"
    unfolding line_pattern_pieces by blast
  note n1 = decimal_number_of_pieces[OF 1] and n2 = decimal_number_of_pieces[OF 2]
  let ?front = "[Many1 (NotChar CHR ''-''), Lit CHR ''-''] @ loose_number @ [Lit CHR '','']"
  have "line_pattern = ?front @ loose_number" by (simp add: line_pattern_def)
  with assms have "rx_match (?front @ loose_number) line = Some (ps, r)" by simp
  from rx_match_split[OF this] obtain qs1 qs2 where
    q: "ps = qs1 @ qs2" "length qs1 = length ?front"
    "rx_match loose_number (drop (length (concat qs1)) line) = Some (qs2, r)"
    by blast
  define front_ps where "front_ps = [ident, ''-''] @ ps1 @ ['','']"
  have ps': "ps = front_ps @ ps2" by (simp add: ps front_ps_def)
  have "length qs1 = 7" using q(2) by (simp add: loose_number_def)
  moreover have "length front_ps = 7" using n1(3) by (simp add: front_ps_def)
  ultimately have len: "length qs1 = length front_ps" by simp
  from q(1) ps' have "qs1 @ qs2 = front_ps @ ps2" by simp
  with len have "qs1 = front_ps \<and> qs2 = ps2" by (simp add: append_eq_append_conv)
  then have qs1: "qs1 = [ident, ''-''] @ ps1 @ ['','']" and qs2: "qs2 = ps2"
    by (simp_all add: front_ps_def)
  let ?tail = "drop (length (concat qs1)) line"
  have tail: "?tail = concat ps2 @ r"
    unfolding line q(1) qs2 by simp
  from rx_match_loose_number_prefix[OF q(3)] qs2 have pre: "concat ps2 = number_prefix ?tail" by simp
  have l: "line = ident @ ''-'' @ concat ps1 @ '','' @ ?tail"
    unfolding tail unfolding line ps by simp
  have g0: "group_text 0 1 ps = ident" by (simp add: group_text_def ps)
  have g1: "group_text 2 4 ps = concat ps1" using n1(3) by (simp add: group_text_def ps)
  have g2: "group_text 7 4 ps = number_prefix ?tail"
    using n1(3) n2(3) pre by (simp add: group_text_def ps)
  have d2: "decimal_number (number_prefix ?tail)" using n2(1) pre by simp
  show ?thesis
    by (intro exI[of _ ident] exI[of _ "concat ps1"] exI[of _ ?tail] conjI l i n1(1) d2 g0 g1 g2)
qed

lemma parse_coordinate_line_Some:
  assumes "parse_coordinate_line line = Some row"
  shows "\<exists>ident lat tail.
        line = ident @ ''-'' @ lat @ '','' @ tail \<and> ident \<noteq> [] \<and> CHR ''-'' \<notin> set ident \<and>
        decimal_number lat \<and> decimal_number (number_prefix tail) \<and>
        row = \<lparr> school_code = ident, latitude = decimal_value lat,
                longitude = decimal_value (number_prefix tail) \<rparr>"
proof -
  from assms obtain ps where ps: "re_match line_pattern line = Some ps"
    and row: "row = \<lparr> school_code = group_text 0 1 ps,
                 latitude = decimal_value (group_text 2 4 ps),
                 longitude = decimal_value (group_text 7 4 ps) \<rparr>"
    by (auto simp: parse_coordinate_line_def split: option.splits)
  from ps obtain r where "rx_match line_pattern line = Some (ps, r)"
    by (auto simp: re_match_def)
  from rx_match_line_pattern[OF this] row show ?thesis by metis
qed

lemma parse_coordinate_line_complete:
  assumes line: "line = ident @ ''-'' @ lat @ '','' @ tail"
    and ident: "ident \<noteq> []" "CHR ''-'' \<notin> set ident"
    and lat: "decimal_number lat" and lng: "decimal_number (number_prefix tail)"
  shows "parse_coordinate_line line =
           Some \<lparr> school_code = ident, latitude = decimal_value lat,
                  longitude = decimal_value (number_prefix tail) \<rparr>"
proof -
  from pieces_of_decimal_number[OF lat] obtain ps1 where
    1: "list_all2 item_matches loose_number ps1" "concat ps1 = lat" by blast
  from pieces_of_decimal_number[OF lng] obtain ps2 where
    2: "list_all2 item_matches loose_number ps2" "concat ps2 = number_prefix tail" by blast
  from number_prefix_is_prefix[of tail] obtain r where r: "tail = number_prefix tail @ r" by blast
  define qs where "qs = [ident, ''-''] @ ps1 @ ['',''] @ ps2"
  have "list_all2 item_matches line_pattern qs"
    unfolding line_pattern_pieces qs_def using ident 1(1) 2(1) by blast
  from rx_match_complete[OF this, of r]
  obtain ps r' where m: "rx_match line_pattern (concat qs @ r) = Some (ps, r')"
    by (metis option.exhaust surj_pair)
  have "concat qs @ r = ident @ ''-'' @ lat @ '','' @ (number_prefix tail @ r)"
    by (simp add: qs_def 1(2) 2(2))
  then have cq: "concat qs @ r = line" using r line by simp
  from rx_match_line_pattern[OF m[unfolded cq]] obtain ident' lat' tail' where
    d: "line = ident' @ ''-'' @ lat' @ '','' @ tail'" "ident' \<noteq> []" "CHR ''-'' \<notin> set ident'"
    "decimal_number lat'" "decimal_number (number_prefix tail')"
    "group_text 0 1 ps = ident'" "group_text 2 4 ps = lat'" "group_text 7 4 ps = number_prefix tail'"
    by blast
  have "ident @ CHR ''-'' # (lat @ '','' @ tail) = ident' @ CHR ''-'' # (lat' @ '','' @ tail')"
    using line d(1) by simp
  from separator_unique[OF ident(2) d(3) this]
  have e1: "ident' = ident" and rest: "lat @ CHR '','' # tail = lat' @ CHR '','' # tail'"
    by simp_all
  have c1: "CHR '','' \<notin> set lat"
    using decimal_number_of_pieces(2)[OF 1(1)] 1(2) by simp
  from pieces_of_decimal_number[OF d(4)] obtain ps1' where
    "list_all2 item_matches loose_number ps1'" "concat ps1' = lat'" by blast
  then have c2: "CHR '','' \<notin> set lat'"
    using decimal_number_of_pieces(2) by blast
  from separator_unique[OF c1 c2 rest] have e2: "lat' = lat" and e3: "tail' = tail" by simp_all
  have rm: "re_match line_pattern line = Some ps"
    using m[unfolded cq] by (simp add: re_match_def)
  from d(6,7,8) e1 e2 e3 have g: "group_text 0 1 ps = ident" "group_text 2 4 ps = lat"
    "group_text 7 4 ps = number_prefix tail"
    by blast+
  show ?thesis
    using g by (simp add: parse_coordinate_line_def rm)
qed

lemma parse_coordinate_line_iff:
  "parse_coordinate_line line = Some row \<longleftrightarrow>
     (\<exists>ident lat tail.
        line = ident @ ''-'' @ lat @ '','' @ tail \<and> ident \<noteq> [] \<and> CHR ''-'' \<notin> set ident \<and>
        decimal_number lat \<and> decimal_number (number_prefix tail) \<and>
        row = \<lparr> school_code = ident, latitude = decimal_value lat,
                longitude = decimal_value (number_prefix tail) \<rparr>)"
  using parse_coordinate_line_Some parse_coordinate_line_complete by blast

lemma drop_duplicates_not_seen:
  "r \<in> set (drop_duplicates seen rs) \<Longrightarrow> school_code r \<notin> set seen \<and> r \<in> set rs"
proof (induction rs arbitrary: seen)
  case Nil
  then show ?case by simp
next
  case (Cons r0 rs)
  show ?case
  proof (cases "school_code r0 \<in> set seen")
    case True
    with Cons.prems have "r \<in> set (drop_duplicates seen rs)" by simp
    from Cons.IH[OF this] show ?thesis by simp
  next
    case False
    with Cons.prems have "r = r0 \<or> r \<in> set (drop_duplicates (school_code r0 # seen) rs)" by simp
    then show ?thesis
    proof
      assume "r = r0"
      with False show ?thesis by simp
    next
      assume "r \<in> set (drop_duplicates (school_code r0 # seen) rs)"
      from Cons.IH[OF this] show ?thesis by simp
    qed
  qed
qed

lemma drop_duplicates_distinct:
  "distinct (map school_code (drop_duplicates seen rs))"
proof (induction rs arbitrary: seen)
  case Nil
  then show ?case by simp
next
  case (Cons r rs)
  show ?case
  proof (cases "school_code r \<in> set seen")
    case True
    then show ?thesis using Cons.IH by simp
  next
    case False
    have "school_code r \<notin> school_code ` set (drop_duplicates (school_code r # seen) rs)"
    proof
      assume "school_code r \<in> school_code ` set (drop_duplicates (school_code r # seen) rs)"
      then obtain x where x: "x \<in> set (drop_duplicates (school_code r # seen) rs)"
        and e: "school_code x = school_code r" by auto
      from drop_duplicates_not_seen[OF x] e show False by simp
    qed
    with False show ?thesis using Cons.IH by simp
  qed
qed

lemma drop_duplicates_first:
  "r \<in> set (drop_duplicates seen rs) \<longleftrightarrow>
     (\<exists>pre post. rs = pre @ r # post \<and> school_code r \<notin> set seen \<and>
        school_code r \<notin> school_code ` set pre)"
proof (induction rs arbitrary: seen)
  case Nil
  then show ?case by simp
next
  case (Cons r0 rs)
  have shift: "(\<exists>pre post. r0 # rs = pre @ r # post \<and> Q pre) \<longleftrightarrow>
               (r = r0 \<and> Q []) \<or> (\<exists>pre post. rs = pre @ r # post \<and> Q (r0 # pre))" for Q
  proof
    assume "\<exists>pre post. r0 # rs = pre @ r # post \<and> Q pre"
    then obtain pre post where e: "r0 # rs = pre @ r # post" and q: "Q pre" by blast
    show "(r = r0 \<and> Q []) \<or> (\<exists>pre post. rs = pre @ r # post \<and> Q (r0 # pre))"
    proof (cases pre)
      case Nil
      with e q show ?thesis by simp
    next
      case (Cons x pre')
      with e q have "rs = pre' @ r # post \<and> Q (r0 # pre')" by simp
      then show ?thesis by blast
    qed
  next
    assume "(r = r0 \<and> Q []) \<or> (\<exists>pre post. rs = pre @ r # post \<and> Q (r0 # pre))"
    then show "\<exists>pre post. r0 # rs = pre @ r # post \<and> Q pre"
    proof
      assume "r = r0 \<and> Q []"
      then have "r0 # rs = [] @ r # rs \<and> Q []" by simp
      then show ?thesis by blast
    next
      assume "\<exists>pre post. rs = pre @ r # post \<and> Q (r0 # pre)"
      then obtain pre post where "rs = pre @ r # post" "Q (r0 # pre)" by blast
      then have "r0 # rs = (r0 # pre) @ r # post \<and> Q (r0 # pre)" by simp
      then show ?thesis by blast
    qed
  qed
  show ?case
  proof (cases "school_code r0 \<in> set seen")
    case True
    then show ?thesis
      unfolding shift using Cons.IH[of seen] by auto
  next
    case False
    then show ?thesis
      unfolding shift using Cons.IH[of "school_code r0 # seen"] by auto
  qed
qed

text \<open>
  Claim C8, amended. A stripped line gives a record exactly when it starts with an
  identifier that is not empty and has no \<^verbatim>\<open>-\<close>, then \<^verbatim>\<open>-\<close>, a decimal number, a
  comma and a decimal number; the record holds that identifier, the first number, and the
  longest number that starts after the comma, and whatever follows is ignored. The loader
  returns rows with distinct identifiers: a row is returned exactly when it is the first
  parsed row with its identifier.
\<close>

theorem coordinate_lines_parsed_by_prefix:
  "(parse_coordinate_line line = Some row \<longleftrightarrow>
      (\<exists>ident lat tail.
         line = ident @ ''-'' @ lat @ '','' @ tail \<and> ident \<noteq> [] \<and> CHR ''-'' \<notin> set ident \<and>
         decimal_number lat \<and> decimal_number (number_prefix tail) \<and>
         row = \<lparr> school_code = ident, latitude = decimal_value lat,
                 longitude = decimal_value (number_prefix tail) \<rparr>)) \<and>
   distinct (map school_code (load_coordinates_data files)) \<and>
   (row \<in> set (load_coordinates_data files) \<longleftrightarrow>
      (\<exists>content pre post.
         files ''ct_codes_coords_googlelinks_federal_primaria.txt'' = Some content \<and>
         List.map_filter parse_coordinate_line
           (filter (\<lambda>l. l \<noteq> []) (map strip (readlines content))) = pre @ row # post \<and>
         school_code row \<notin> school_code ` set pre))"
proof (intro conjI)
  show "parse_coordinate_line line = Some row \<longleftrightarrow>
      (\<exists>ident lat tail.
         line = ident @ ''-'' @ lat @ '','' @ tail \<and> ident \<noteq> [] \<and> CHR ''-'' \<notin> set ident \<and>
         decimal_number lat \<and> decimal_number (number_prefix tail) \<and>
         row = \<lparr> school_code = ident, latitude = decimal_value lat,
                 longitude = decimal_value (number_prefix tail) \<rparr>)"
    by (rule parse_coordinate_line_iff)
  show "distinct (map school_code (load_coordinates_data files))"
    by (simp add: load_coordinates_data_def drop_duplicates_distinct split: option.splits)
  show "row \<in> set (load_coordinates_data files) \<longleftrightarrow>
      (\<exists>content pre post.
         files ''ct_codes_coords_googlelinks_federal_primaria.txt'' = Some content \<and>
         List.map_filter parse_coordinate_line
           (filter (\<lambda>l. l \<noteq> []) (map strip (readlines content))) = pre @ row # post \<and>
         school_code row \<notin> school_code ` set pre)"
  proof (cases "files ''ct_codes_coords_googlelinks_federal_primaria.txt''")
    case None
    then show ?thesis by (simp add: load_coordinates_data_def)
  next
    case (Some content)
    then show ?thesis
      by (simp add: load_coordinates_data_def drop_duplicates_first)
  qed
qed

text \<open>
  Claim C8 as stated fails in both halves. Of two lines of the stated form with the same
  identifier, only the first gives a row of the loader; a line with text after the second
  number gives a record all the same; and a line whose identifier holds a \<^verbatim>\<open>-\<close> gives
  none.
\<close>

theorem coordinate_lines_counterexample:
  "load_coordinates_data repeated_code_files =
     [\<lparr> school_code = ''09DPR0001A'', latitude = 39 / 2, longitude = - (397 / 4) \<rparr>] \<and>
   parse_coordinate_line ''09DPR0001A-20.5,-98.75'' =
     Some \<lparr> school_code = ''09DPR0001A'', latitude = 41 / 2, longitude = - (395 / 4) \<rparr> \<and>
   parse_coordinate_line ''09DPR0001A-19.5,-99.25xyz'' =
     Some \<lparr> school_code = ''09DPR0001A'', latitude = 39 / 2, longitude = - (397 / 4) \<rparr> \<and>
   parse_coordinate_line ''09-DPR0001A-19.5,-99.25'' = None"
  by code_simp

theorem coordinate_lines_parsed_by_prefix_witness:
  "decimal_number ''19.5'' \<and>
   number_prefix ''-99.25-https://www.google.com/maps/place/19.5,-99.25'' = ''-99.25'' \<and>
   decimal_number ''-99.25'' \<and>
   parse_coordinate_line ''09DPR0001A-19.5,-99.25-https://www.google.com/maps/place/19.5,-99.25'' =
     Some \<lparr> school_code = ''09DPR0001A'', latitude = 39 / 2, longitude = - (397 / 4) \<rparr>"
proof -
  have h1: "decimal_number ''19.5''" by code_simp
  have h2: "number_prefix ''-99.25-https://www.google.com/maps/place/19.5,-99.25'' = ''-99.25''"
    by code_simp
  have h3: "decimal_number ''-99.25''" by code_simp
  have v1: "decimal_value ''19.5'' = 39 / 2" by code_simp
  have v2: "decimal_value ''-99.25'' = - (397 / 4)" by code_simp
  have "\<exists>ident lat tail.
         ''09DPR0001A-19.5,-99.25-https://www.google.com/maps/place/19.5,-99.25'' =
           ident @ ''-'' @ lat @ '','' @ tail \<and> ident \<noteq> [] \<and> CHR ''-'' \<notin> set ident \<and>
         decimal_number lat \<and> decimal_number (number_prefix tail) \<and>
         \<lparr> school_code = ''09DPR0001A'', latitude = 39 / 2, longitude = - (397 / 4) \<rparr> =
           \<lparr> school_code = ident, latitude = decimal_value lat,
             longitude = decimal_value (number_prefix tail) \<rparr>"
    by (rule exI[of _ "''09DPR0001A''"], rule exI[of _ "''19.5''"],
        rule exI[of _ "''-99.25-https://www.google.com/maps/place/19.5,-99.25''"])
       (simp add: h1 h2 h3 v1 v2)
  with coordinate_lines_parsed_by_prefix[of
         "''09DPR0001A-19.5,-99.25-https://www.google.com/maps/place/19.5,-99.25''"
         "\<lparr> school_code = ''09DPR0001A'', latitude = 39 / 2, longitude = - (397 / 4) \<rparr>"
         Map.empty]
  have "parse_coordinate_line ''09DPR0001A-19.5,-99.25-https://www.google.com/maps/place/19.5,-99.25'' =
     Some \<lparr> school_code = ''09DPR0001A'', latitude = 39 / 2, longitude = - (397 / 4) \<rparr>"
    by blast
  with h1 h2 h3 show ?thesis by blast
qed

text \<open>
  Claim C10. For a result with a scraped record (in particular one marked successful) whose
  link is absent, empty, or holds no \<^verbatim>\<open>place/lat,lng\<close> with two pointed decimals,
  \<^verbatim>\<open>save_result_incrementally\<close> returns \<^verbatim>\<open>False\<close> and leaves every file as it was,
  and the loop over the results then appends one line for the identifier to the failure
  log and to no other file, and counts the item as failed.
\<close>

theorem unsaved_success_goes_to_failure_log:
  assumes "school_data res = Some sd"
    and "href sd = None \<or> href sd = Some [] \<or> (\<exists>link. href sd = Some link \<and> \<not> contains_place link)"
  shows "save_result_incrementally res config files = (files, False) \<and>
         (let st' = process_results config clock [TaskResult res] st
          in disk st' =
               append_file (failed_codes_file config)
                 (result_ct_code res @ ''|'' @ or_else (last_error res) ''Unknown error'' @ ''|'' @
                  clock (total_processed st + 1) @ [CHR 0x0A])
                 (disk st) \<and>
             failed_count st' = failed_count st + 1 \<and>
             successful_count st' = successful_count st \<and>
             total_processed st' = total_processed st + 1)"
proof -
  have unsaved: "\<not> has_coordinates res"
    using assms by (auto simp: has_coordinates_def re_search_place_None)
  have 1: "save_result_incrementally res config files = (files, False)"
    by (rule save_result_unsaved[OF unsaved])
  have "process_results config clock [TaskResult res] st = after_item config clock (TaskResult res) st"
    by (simp add: process_results_Cons del: process_results.simps(2))
  then have 2: "let st' = process_results config clock [TaskResult res] st
          in disk st' =
               append_file (failed_codes_file config)
                 (result_ct_code res @ ''|'' @ or_else (last_error res) ''Unknown error'' @ ''|'' @
                  clock (total_processed st + 1) @ [CHR 0x0A])
                 (disk st) \<and>
             failed_count st' = failed_count st + 1 \<and>
             successful_count st' = successful_count st \<and>
             total_processed st' = total_processed st + 1"
    using unsaved by (simp add: after_item_def save_failed_code_def Let_def)
  from 1 2 show ?thesis by (rule conjI)
qed

theorem unsaved_success_goes_to_failure_log_witness:
  "school_data no_place_result = Some search_page_record \<and>
   success search_page_record \<and>
   href search_page_record = Some ''https://www.google.com/maps/search/escuela+primaria'' \<and>
   \<not> contains_place ''https://www.google.com/maps/search/escuela+primaria'' \<and>
   save_result_incrementally no_place_result ScraperConfig_default Map.empty = (Map.empty, False) \<and>
   disk (process_results ScraperConfig_default noon [TaskResult no_place_result] start_state)
     (failed_codes_file ScraperConfig_default) =
     Some ''09DPR0001A|Unknown error|2025-01-01T12:00:00\<newline>'' \<and>
   disk (process_results ScraperConfig_default noon [TaskResult no_place_result] start_state)
     (output_file ScraperConfig_default) = None \<and>
   disk (process_results ScraperConfig_default noon [TaskResult no_place_result] start_state)
     (progress_file ScraperConfig_default) = None"
proof -
  have h1: "school_data no_place_result = Some search_page_record"
    by (simp add: no_place_result_def)
  have h2: "success search_page_record"
    by (simp add: search_page_record_def found_record_def)
  have h3: "href search_page_record = Some ''https://www.google.com/maps/search/escuela+primaria''"
    by (simp add: search_page_record_def)
  have "re_search place_pattern ''https://www.google.com/maps/search/escuela+primaria'' = None"
    by code_simp
  from re_search_place_None[THEN iffD1, OF this]
  have h4: "\<not> contains_place ''https://www.google.com/maps/search/escuela+primaria''" .
  from h3 h4 have h5: "href search_page_record = None \<or> href search_page_record = Some [] \<or>
      (\<exists>link. href search_page_record = Some link \<and> \<not> contains_place link)"
    by blast
  note t = unsaved_success_goes_to_failure_log[OF h1 h5, of ScraperConfig_default Map.empty noon start_state]
  from t have s: "save_result_incrementally no_place_result ScraperConfig_default Map.empty = (Map.empty, False)"
    by blast
  from t have d: "disk (process_results ScraperConfig_default noon [TaskResult no_place_result] start_state) =
       append_file (failed_codes_file ScraperConfig_default)
         (result_ct_code no_place_result @ ''|'' @ or_else (last_error no_place_result) ''Unknown error'' @
          ''|'' @ noon (total_processed start_state + 1) @ [CHR 0x0A])
         (disk start_state)"
    unfolding Let_def by blast
  have f: "disk (process_results ScraperConfig_default noon [TaskResult no_place_result] start_state)
     (failed_codes_file ScraperConfig_default) =
     Some ''09DPR0001A|Unknown error|2025-01-01T12:00:00\<newline>''"
    unfolding d
    by (simp add: append_file_def no_place_result_def or_else_def noon_def start_state_def
          ScraperConfig_default_def)
  have o: "disk (process_results ScraperConfig_default noon [TaskResult no_place_result] start_state)
     (output_file ScraperConfig_default) = None"
    unfolding d by (simp add: append_file_def start_state_def ScraperConfig_default_def)
  have p: "disk (process_results ScraperConfig_default noon [TaskResult no_place_result] start_state)
     (progress_file ScraperConfig_default) = None"
    unfolding d by (simp add: append_file_def start_state_def ScraperConfig_default_def)
  from h1 h2 h3 h4 s f o p show ?thesis by blast
qed

section \<open>The job with the retry wrapper as its task\<close>

lemma scrape_with_retry_ct_code:
  "result_ct_code (result (scrape_with_retry cfg scrape jd bd code)) = code"
  by (simp add: scrape_with_retry_def retry_loop_ct_code)

lemma scrape_with_retry_all_failed:
  assumes "\<forall>a\<in>{1 .. retry_max_attempts cfg}. \<not> succeeded (scrape a)"
  shows "school_data (result (scrape_with_retry cfg scrape jd bd code)) = None"
    and "last_error (result (scrape_with_retry cfg scrape jd bd code)) =
         (if 1 \<le> retry_max_attempts cfg then recorded_error (scrape (retry_max_attempts cfg))
          else None)"
proof -
  let ?as = "[1 .. retry_max_attempts cfg]"
  from assms have all: "\<forall>a\<in>set ?as. \<not> succeeded (scrape a)" by simp
  then have tw: "takeWhile (\<lambda>a. \<not> succeeded (scrape a)) ?as = ?as"
    by (simp add: takeWhile_eq_all_conv)
  from all have dw: "dropWhile (\<lambda>a. \<not> succeeded (scrape a)) ?as = []"
    by (simp add: dropWhile_eq_Nil_conv)
  show "school_data (result (scrape_with_retry cfg scrape jd bd code)) = None"
    unfolding scrape_with_retry_def retry_loop_school_data dw by simp
  have l: "1 \<le> retry_max_attempts cfg \<Longrightarrow> last ?as = retry_max_attempts cfg"
    by (simp add: upto_rec2)
  show "last_error (result (scrape_with_retry cfg scrape jd bd code)) =
         (if 1 \<le> retry_max_attempts cfg then recorded_error (scrape (retry_max_attempts cfg))
          else None)"
    unfolding scrape_with_retry_def retry_loop_last_error tw using l by simp
qed

lemma has_coordinates_no_data: "school_data res = None \<Longrightarrow> \<not> has_coordinates res"
  by (simp add: has_coordinates_def)

lemma process_results_accumulates:
  assumes "\<And>r st. F (after_item config clock r st) = F st @ g r"
  shows "F (process_results config clock rs st) = F st @ concat (map g rs)"
  by (induction rs arbitrary: st)
     (simp_all add: process_results_Cons assms del: process_results.simps(2))

lemma after_batch_accumulates:
  assumes step: "\<And>r st. F (after_item config clock r st) = F st @ g r"
    and tr: "\<And>st es. F (st\<lparr> job_trace := es \<rparr>) = F st"
  shows "F (after_batch config run_task pause_draw clock total_batches item st) =
         F st @ concat (map g (map run_task (snd item)))"
  by (simp add: after_batch_def Let_def tr process_results_accumulates[where F = F and g = g, OF step])

lemma process_batches_accumulates:
  assumes step: "\<And>r st. F (after_item config clock r st) = F st @ g r"
    and tr: "\<And>st es. F (st\<lparr> job_trace := es \<rparr>) = F st"
  shows "F (process_batches config run_task pause_draw clock total_batches batches st) =
         F st @ concat (map g (map run_task (concat (map snd batches))))"
  by (induction batches arbitrary: st)
     (simp_all add: process_batches_Cons after_batch_accumulates[where F = F and g = g, OF step tr]
        del: process_batches.simps(2))

lemma run_job_accumulates:
  assumes input: "files0 ''clave_ct_list_federal_primaria.txt'' = Some content"
    and size: "0 < max_concurrent_requests config"
    and step: "\<And>r st. F (after_item config clock r st) = F st @ g r"
    and tr: "\<And>st es. F (st\<lparr> job_trace := es \<rparr>) = F st"
  shows "F (snd (run_job config run_task pause_draw clock files0)) =
         F \<lparr> disk = files0, successful_count = 0, failed_count = 0, total_processed = 0,
             job_trace = [], messages = [] \<rparr> @
         concat (map g (map run_task (pending_codes content (progress_file config) files0)))"
proof -
  have cat: "concat (map snd (enumerate 1 (batches_of (max_concurrent_requests config)
                (pending_codes content (progress_file config) files0)))) =
             pending_codes content (progress_file config) files0"
    by (simp add: map_snd_enumerate' concat_batches_of[OF size])
  show ?thesis
    unfolding run_job_state[where ?files0.0 = files0, OF input size]
      process_batches_accumulates[where F = F and g = g, OF step tr] cat
    by simp
qed



lemma after_item_message:
  "messages (after_item config clock r st) = messages st @ [item_message r]"
  by (cases r) (simp_all add: after_item_def item_message_def)

lemma run_job_messages:
  assumes input: "files0 ''clave_ct_list_federal_primaria.txt'' = Some content"
    and size: "0 < max_concurrent_requests config"
  shows "messages (snd (run_job config run_task pause_draw clock files0)) =
         map (\<lambda>code. item_message (run_task code))
           (pending_codes content (progress_file config) files0)"
proof -
  have "messages (snd (run_job config run_task pause_draw clock files0)) =
        concat (map (\<lambda>r. [item_message r])
          (map run_task (pending_codes content (progress_file config) files0)))"
    using run_job_accumulates[where F = messages and g = "\<lambda>r. [item_message r]"
        and ?files0.0 = files0, OF input size after_item_message]
    by simp
  then show ?thesis by (simp add: comp_def concat_map_singleton)
qed


lemma concat_map_filter_if:
  "concat (map (\<lambda>x. if P x then f x else []) xs) = concat (map f (filter P xs))"
  by (induction xs) simp_all

lemma concat_map_member:
  "x \<in> set xs \<Longrightarrow> \<exists>before after. concat (map f xs) = before @ f x @ after"
proof -
  assume "x \<in> set xs"
  then obtain ys zs where "xs = ys @ x # zs" by (meson split_list)
  then have "concat (map f xs) = concat (map f ys) @ f x @ concat (map f zs)" by simp
  then show ?thesis by blast
qed

lemma enumerate_map': "enumerate n (map f xs) = map (\<lambda>(k, x). (k, f x)) (enumerate n xs)"
  by (induction xs arbitrary: n) simp_all


text \<open>
  Claim C6. The job's task is the retry wrapper, which turns every failed attempt (a failure
  record, a timeout or any other exception) into a stored error and returns a result. Every
  pending code is submitted, and every result is handled and counted as a success or as a
  failure. Each result that is not saved prints its failure and adds the line
  \<open>code|error|time\<close> to the failure log, with the stored error or
  \<^verbatim>\<open>Unknown error\<close>. In particular a code whose attempts all fail is not saved and is
  recorded with the error of its last attempt, and the items and batches after it are
  processed all the same.
\<close>

theorem failed_fetches_are_recorded_and_the_job_goes_on:
  assumes input: "files0 ''clave_ct_list_federal_primaria.txt'' = Some content"
    and size: "0 < max_concurrent_requests config"
    and out: "failed_codes_file config \<noteq> output_file config"
    and prog: "failed_codes_file config \<noteq> progress_file config"
  shows
    "let outcome = (\<lambda>code. result (scrape_with_retry config (fetch code) (jd code) (bd code) code));
         saved = (\<lambda>code. snd (save_result_incrementally (outcome code) config files0));
         st = snd (run_job config (retry_task config fetch jd bd) pause_draw clock files0);
         pending = pending_codes content (progress_file config) files0;
         m = retry_max_attempts config;
         log = file_text (disk st) (failed_codes_file config)
     in concat (submitted (job_trace st)) = pending \<and>
        total_processed st = length pending \<and>
        successful_count st + failed_count st = length pending \<and>
        failed_count st = length (filter (\<lambda>code. \<not> saved code) pending) \<and>
        messages st =
          map (\<lambda>code. if saved code then PrintSaved code
                       else PrintFailed code (last_error (outcome code))) pending \<and>
        log =
          file_text files0 (failed_codes_file config) @
          concat (map (\<lambda>(n, code). code @ ''|'' @
                                     or_else (last_error (outcome code)) ''Unknown error'' @ ''|'' @
                                     clock n @ [CHR 0x0A])
                    (filter (\<lambda>(n, code). \<not> saved code) (enumerate 1 pending))) \<and>
        (\<forall>(n, code) \<in> set (enumerate 1 pending).
           1 \<le> m \<and> (\<forall>a\<in>{1 .. m}. \<not> succeeded (fetch code a)) \<longrightarrow>
           \<not> saved code \<and>
           PrintFailed code (recorded_error (fetch code m)) \<in> set (messages st) \<and>
           (\<exists>before after.
              log = before @ code @ ''|'' @
                    or_else (recorded_error (fetch code m)) ''Unknown error'' @ ''|'' @
                    clock n @ [CHR 0x0A] @ after))"
proof -
  define outcome where
    "outcome = (\<lambda>code. result (scrape_with_retry config (fetch code) (jd code) (bd code) code))"
  define saved where "saved = (\<lambda>code. snd (save_result_incrementally (outcome code) config files0))"
  define st where "st = snd (run_job config (retry_task config fetch jd bd) pause_draw clock files0)"
  define pending where "pending = pending_codes content (progress_file config) files0"
  define m where "m = retry_max_attempts config"
  define log where "log = file_text (disk st) (failed_codes_file config)"
  define entry where
    "entry = (\<lambda>(n :: nat, code). code @ ''|'' @
                or_else (last_error (outcome code)) ''Unknown error'' @ ''|'' @
                clock n @ [CHR 0x0A])"
  have task: "retry_task config fetch jd bd = (\<lambda>code. TaskResult (outcome code))"
    by (simp add: fun_eq_iff retry_task_def outcome_def)
  have ct: "result_ct_code (outcome code) = code" for code
    by (simp add: outcome_def scrape_with_retry_ct_code)
  have sv: "saved code = has_coordinates (outcome code)" for code
    by (simp add: saved_def save_result_snd)
  note acc = run_job_accounting[where ?files0.0 = files0 and run_task = "retry_task config fetch jd bd"
      and pause_draw = pause_draw and clock = clock, OF input size out prog,
      unfolded Let_def, folded st_def pending_def]
  have c1: "concat (submitted (job_trace st)) = pending"
    using acc by blast
  have c2: "total_processed st = length pending"
    using acc by blast
  have c3: "successful_count st + failed_count st = length pending"
    using acc by blast
  have "failed_count st =
          length (filter (\<lambda>r. case r of
                                 TaskException e \<Rightarrow> True
                               | TaskResult res \<Rightarrow> \<not> snd (save_result_incrementally res config files0))
                    (map (retry_task config fetch jd bd) pending))"
    using acc by blast
  then have c4: "failed_count st = length (filter (\<lambda>code. \<not> saved code) pending)"
    unfolding task by (simp add: filter_map comp_def saved_def)
  have c5: "messages st =
          map (\<lambda>code. if saved code then PrintSaved code
                       else PrintFailed code (last_error (outcome code))) pending"
    unfolding st_def pending_def
      run_job_messages[where ?files0.0 = files0, OF input size] task
    by (simp add: item_message_def ct sv)
  have "log =
          file_text files0 (failed_codes_file config) @
          concat (map (\<lambda>(n, r). case r of
                                   TaskException e \<Rightarrow> []
                                 | TaskResult res \<Rightarrow>
                                     if snd (save_result_incrementally res config files0) then []
                                     else result_ct_code res @ ''|'' @
                                          or_else (last_error res) ''Unknown error'' @ ''|'' @
                                          clock n @ [CHR 0x0A])
                    (enumerate 1 (map (retry_task config fetch jd bd) pending)))"
    unfolding log_def using acc by blast
  also have "concat (map (\<lambda>(n, r). case r of
                                   TaskException e \<Rightarrow> []
                                 | TaskResult res \<Rightarrow>
                                     if snd (save_result_incrementally res config files0) then []
                                     else result_ct_code res @ ''|'' @
                                          or_else (last_error res) ''Unknown error'' @ ''|'' @
                                          clock n @ [CHR 0x0A])
                    (enumerate 1 (map (retry_task config fetch jd bd) pending))) =
             concat (map (\<lambda>x. if (\<lambda>(n, code). \<not> saved code) x then entry x else [])
                      (enumerate 1 pending))"
    unfolding task enumerate_map'
    by (intro arg_cong[where f = concat])
       (auto simp add: comp_def case_prod_beta entry_def ct saved_def)
  finally have c6: "log = file_text files0 (failed_codes_file config) @
          concat (map entry (filter (\<lambda>(n, code). \<not> saved code) (enumerate 1 pending)))"
    unfolding concat_map_filter_if .
  have c7: "\<forall>(n, code) \<in> set (enumerate 1 pending).
           1 \<le> m \<and> (\<forall>a\<in>{1 .. m}. \<not> succeeded (fetch code a)) \<longrightarrow>
           \<not> saved code \<and>
           PrintFailed code (recorded_error (fetch code m)) \<in> set (messages st) \<and>
           (\<exists>before after.
              log = before @ code @ ''|'' @
                    or_else (recorded_error (fetch code m)) ''Unknown error'' @ ''|'' @
                    clock n @ [CHR 0x0A] @ after)"
  proof (intro ballI, clarify)
    fix n code
    assume mem: "(n, code) \<in> set (enumerate 1 pending)"
      and m1: "1 \<le> m"
      and fail: "\<forall>a\<in>{1 .. m}. \<not> succeeded (fetch code a)"
    from fail have fail': "\<forall>a\<in>{1 .. retry_max_attempts config}. \<not> succeeded (fetch code a)"
      by (simp add: m_def)
    have none: "school_data (outcome code) = None"
      unfolding outcome_def by (rule scrape_with_retry_all_failed(1)[OF fail'])
    have err: "last_error (outcome code) = recorded_error (fetch code m)"
      unfolding outcome_def scrape_with_retry_all_failed(2)[OF fail'] using m1 by (simp add: m_def)
    have ns: "\<not> saved code"
      unfolding sv by (rule has_coordinates_no_data[OF none])
    from mem have "code \<in> set pending"
      by (auto simp add: enumerate_eq_zip dest: set_zip_rightD)
    then have msg: "PrintFailed code (recorded_error (fetch code m)) \<in> set (messages st)"
      unfolding c5 using ns err by (force simp add: image_iff)
    from mem ns have "(n, code) \<in> set (filter (\<lambda>(n, code). \<not> saved code) (enumerate 1 pending))"
      by simp
    from concat_map_member[OF this, of entry] obtain before after where
      "concat (map entry (filter (\<lambda>(n, code). \<not> saved code) (enumerate 1 pending))) =
       before @ entry (n, code) @ after"
      by blast
    then have "log = (file_text files0 (failed_codes_file config) @ before) @ code @ ''|'' @
                    or_else (recorded_error (fetch code m)) ''Unknown error'' @ ''|'' @
                    clock n @ [CHR 0x0A] @ after"
      unfolding c6 by (simp add: entry_def err)
    then have "\<exists>before after.
              log = before @ code @ ''|'' @
                    or_else (recorded_error (fetch code m)) ''Unknown error'' @ ''|'' @
                    clock n @ [CHR 0x0A] @ after"
      by blast
    with ns msg show "\<not> saved code \<and>
           PrintFailed code (recorded_error (fetch code m)) \<in> set (messages st) \<and>
           (\<exists>before after.
              log = before @ code @ ''|'' @
                    or_else (recorded_error (fetch code m)) ''Unknown error'' @ ''|'' @
                    clock n @ [CHR 0x0A] @ after)"
      by (intro conjI)
  qed
  have "concat (submitted (job_trace st)) = pending \<and>
        total_processed st = length pending \<and>
        successful_count st + failed_count st = length pending \<and>
        failed_count st = length (filter (\<lambda>code. \<not> saved code) pending) \<and>
        messages st =
          map (\<lambda>code. if saved code then PrintSaved code
                       else PrintFailed code (last_error (outcome code))) pending \<and>
        log =
          file_text files0 (failed_codes_file config) @
          concat (map (\<lambda>(n, code). code @ ''|'' @
                                     or_else (last_error (outcome code)) ''Unknown error'' @ ''|'' @
                                     clock n @ [CHR 0x0A])
                    (filter (\<lambda>(n, code). \<not> saved code) (enumerate 1 pending))) \<and>
        (\<forall>(n, code) \<in> set (enumerate 1 pending).
           1 \<le> m \<and> (\<forall>a\<in>{1 .. m}. \<not> succeeded (fetch code a)) \<longrightarrow>
           \<not> saved code \<and>
           PrintFailed code (recorded_error (fetch code m)) \<in> set (messages st) \<and>
           (\<exists>before after.
              log = before @ code @ ''|'' @
                    or_else (recorded_error (fetch code m)) ''Unknown error'' @ ''|'' @
                    clock n @ [CHR 0x0A] @ after))"
    using c1 c2 c3 c4 c5 c6[unfolded entry_def] c7 by (intro conjI)
  then show ?thesis
    unfolding Let_def outcome_def saved_def st_def pending_def m_def log_def .
qed

theorem failed_fetches_are_recorded_and_the_job_goes_on_witness:
  "rerun_files ''clave_ct_list_federal_primaria.txt'' =
     Some ''09DPR0001A\<newline>09DPR0002B\<newline> 09DPR0003C \<newline>\<newline>09DPR0004D\<newline>09DPR0005E'' \<and>
   0 < max_concurrent_requests ScraperConfig_default \<and>
   failed_codes_file ScraperConfig_default \<noteq> output_file ScraperConfig_default \<and>
   failed_codes_file ScraperConfig_default \<noteq> progress_file ScraperConfig_default \<and>
   enumerate 1
     (pending_codes ''09DPR0001A\<newline>09DPR0002B\<newline> 09DPR0003C \<newline>\<newline>09DPR0004D\<newline>09DPR0005E''
        (progress_file ScraperConfig_default) rerun_files) =
     [(1, ''09DPR0001A''), (2, ''09DPR0003C''), (3, ''09DPR0004D''), (4, ''09DPR0005E'')] \<and>
   retry_max_attempts ScraperConfig_default = 3 \<and>
   \<not> succeeded (sample_fetch ''09DPR0003C'' 1) \<and>
   \<not> succeeded (sample_fetch ''09DPR0003C'' 2) \<and>
   \<not> succeeded (sample_fetch ''09DPR0003C'' 3) \<and>
   recorded_error (sample_fetch ''09DPR0003C'' 3) = Some ''browser crashed'' \<and>
   PrintFailed ''09DPR0003C'' (Some ''browser crashed'') \<in>
     set (messages (snd (run_job ScraperConfig_default
            (retry_task ScraperConfig_default sample_fetch mid_draws mid_draws)
            mid_draw noon rerun_files))) \<and>
   (\<exists>before after.
      file_text (disk (snd (run_job ScraperConfig_default
            (retry_task ScraperConfig_default sample_fetch mid_draws mid_draws)
            mid_draw noon rerun_files)))
        (failed_codes_file ScraperConfig_default) =
      before @ ''09DPR0003C|browser crashed|2025-01-01T12:00:00\<newline>'' @ after) \<and>
   total_processed (snd (run_job ScraperConfig_default
            (retry_task ScraperConfig_default sample_fetch mid_draws mid_draws)
            mid_draw noon rerun_files)) = 4 \<and>
   file_text (disk (snd (run_job ScraperConfig_default
            (retry_task ScraperConfig_default sample_fetch mid_draws mid_draws)
            mid_draw noon rerun_files)))
     (failed_codes_file ScraperConfig_default) =
     ''09DPR0003C|browser crashed|2025-01-01T12:00:00\<newline>09DPR0004D|Timeout: slow|2025-01-01T12:00:00\<newline>09DPR0005E|Target element not found|2025-01-01T12:00:00\<newline>''"
proof -
  let ?st = "snd (run_job ScraperConfig_default
            (retry_task ScraperConfig_default sample_fetch mid_draws mid_draws)
            mid_draw noon rerun_files)"
  have h1: "rerun_files ''clave_ct_list_federal_primaria.txt'' =
     Some ''09DPR0001A\<newline>09DPR0002B\<newline> 09DPR0003C \<newline>\<newline>09DPR0004D\<newline>09DPR0005E''"
    by (simp add: rerun_files_def)
  have h2: "0 < max_concurrent_requests ScraperConfig_default"
    by (simp add: ScraperConfig_default_def)
  have h3: "failed_codes_file ScraperConfig_default \<noteq> output_file ScraperConfig_default"
    by (simp add: ScraperConfig_default_def)
  have h4: "failed_codes_file ScraperConfig_default \<noteq> progress_file ScraperConfig_default"
    by (simp add: ScraperConfig_default_def)
  have p: "pending_codes ''09DPR0001A\<newline>09DPR0002B\<newline> 09DPR0003C \<newline>\<newline>09DPR0004D\<newline>09DPR0005E''
     (progress_file ScraperConfig_default) rerun_files =
     [''09DPR0001A'', ''09DPR0003C'', ''09DPR0004D'', ''09DPR0005E'']"
    by code_simp
  have e: "enumerate 1
     (pending_codes ''09DPR0001A\<newline>09DPR0002B\<newline> 09DPR0003C \<newline>\<newline>09DPR0004D\<newline>09DPR0005E''
        (progress_file ScraperConfig_default) rerun_files) =
     [(1, ''09DPR0001A''), (2, ''09DPR0003C''), (3, ''09DPR0004D''), (4, ''09DPR0005E'')]"
    unfolding p by simp
  have m: "retry_max_attempts ScraperConfig_default = 3"
    by (simp add: ScraperConfig_default_def)
  have f: "\<not> succeeded (sample_fetch ''09DPR0003C'' a)" for a
    by (simp add: sample_fetch_def succeeded_def)
  have r: "recorded_error (sample_fetch ''09DPR0003C'' 3) = Some ''browser crashed''"
    by (simp add: sample_fetch_def recorded_error_def)
  have t: "file_text (disk ?st) (failed_codes_file ScraperConfig_default) =
     ''09DPR0003C|browser crashed|2025-01-01T12:00:00\<newline>09DPR0004D|Timeout: slow|2025-01-01T12:00:00\<newline>09DPR0005E|Target element not found|2025-01-01T12:00:00\<newline>''"
    by code_simp
  note inst = failed_fetches_are_recorded_and_the_job_goes_on[where ?files0.0 = rerun_files
      and fetch = sample_fetch and jd = mid_draws and bd = mid_draws and pause_draw = mid_draw
      and clock = noon, OF h1 h2 h3 h4, unfolded Let_def e m]
  from inst have n: "total_processed ?st = length
     (pending_codes ''09DPR0001A\<newline>09DPR0002B\<newline> 09DPR0003C \<newline>\<newline>09DPR0004D\<newline>09DPR0005E''
        (progress_file ScraperConfig_default) rerun_files)"
    by blast
  then have n4: "total_processed ?st = 4" unfolding p by simp
  from inst have "\<forall>(n, code) \<in> set [(1, ''09DPR0001A''), (2, ''09DPR0003C''), (3, ''09DPR0004D''),
                                  (4 :: nat, ''09DPR0005E'')].
           1 \<le> (3 :: int) \<and> (\<forall>a\<in>{1 .. 3}. \<not> succeeded (sample_fetch code a)) \<longrightarrow>
           \<not> snd (save_result_incrementally
                   (result (scrape_with_retry ScraperConfig_default (sample_fetch code)
                      (mid_draws code) (mid_draws code) code))
                   ScraperConfig_default rerun_files) \<and>
           PrintFailed code (recorded_error (sample_fetch code 3)) \<in> set (messages ?st) \<and>
           (\<exists>before after.
              file_text (disk ?st) (failed_codes_file ScraperConfig_default) =
                before @ code @ ''|'' @
                or_else (recorded_error (sample_fetch code 3)) ''Unknown error'' @ ''|'' @
                noon n @ [CHR 0x0A] @ after)"
    by blast
  then have "PrintFailed ''09DPR0003C'' (recorded_error (sample_fetch ''09DPR0003C'' 3))
               \<in> set (messages ?st) \<and>
           (\<exists>before after.
              file_text (disk ?st) (failed_codes_file ScraperConfig_default) =
                before @ ''09DPR0003C'' @ ''|'' @
                or_else (recorded_error (sample_fetch ''09DPR0003C'' 3)) ''Unknown error'' @ ''|'' @
                noon 2 @ [CHR 0x0A] @ after)"
    using f by simp
  then have c: "PrintFailed ''09DPR0003C'' (Some ''browser crashed'') \<in> set (messages ?st) \<and>
           (\<exists>before after.
              file_text (disk ?st) (failed_codes_file ScraperConfig_default) =
                before @ ''09DPR0003C|browser crashed|2025-01-01T12:00:00\<newline>'' @ after)"
    unfolding r by (simp add: or_else_def noon_def)
  from h1 h2 h3 h4 e m f[of 1] f[of 2] f[of 3] r c n4 t show ?thesis
    by (intro conjI) blast+
qed



end
